theory Spec2Isabelle
  imports Main
begin


section \<open>Python values, exceptions and string primitives\<close>

text \<open>
  The program is \<^verbatim>\<open>lesson3/homework/json_parser.py\<close>. Its strings are modelled as
  Python 2 byte strings (\<^typ>\<open>string\<close>, a list of 8-bit characters), the language
  version of the course the file comes from. An exception is a value: every function
  that can raise returns \<open>error + 'a\<close>, with \<open>Inl\<close> the exception raised.
\<close>

datatype error =
    ValueError | TypeError | KeyError | IndexError
  | RecursionError  \<comment> \<open>the recursion limit is reached\<close>
  | ReError         \<comment> \<open>\<^verbatim>\<open>re.error\<close>: the pattern does not compile\<close>
  | NotModelled     \<comment> \<open>the pattern is outside the modelled fragment of \<^verbatim>\<open>re\<close>\<close>

text \<open>
  \<^verbatim>\<open>str.strip()\<close> removes the characters for which \<^verbatim>\<open>isspace()\<close> holds on a byte
  string: space, tab, line feed, vertical tab, form feed and carriage return.
\<close>

definition is_space :: "char \<Rightarrow> bool" where
  "is_space c \<longleftrightarrow>
     c = CHR '' '' \<or> c = CHR 0x09 \<or> c = CHR 0x0A \<or> c = CHR 0x0B \<or> c = CHR 0x0C \<or> c = CHR 0x0D"

definition strip :: "string \<Rightarrow> string" where
  "strip s = rev (dropWhile is_space (rev (dropWhile is_space s)))"

text \<open>\<^verbatim>\<open>s.replace(old, new)\<close> for one-character \<^verbatim>\<open>old\<close> and \<^verbatim>\<open>new\<close>.\<close>

definition str_replace :: "char \<Rightarrow> char \<Rightarrow> string \<Rightarrow> string" where
  "str_replace old new s = map (\<lambda>c. if c = old then new else c) s"

fun starts_with :: "string \<Rightarrow> string \<Rightarrow> bool" where
  "starts_with [] s = True"
| "starts_with (p # ps) [] = False"
| "starts_with (p # ps) (c # cs) = (p = c \<and> starts_with ps cs)"

text \<open>
  \<^verbatim>\<open>s.find(sep)\<close> followed by the two slices around the occurrence: the text before
  the leftmost occurrence of \<open>sep\<close> and the text after it.
\<close>

fun find_sep :: "string \<Rightarrow> string \<Rightarrow> (string \<times> string) option" where
  "find_sep sep [] = (if sep = [] then Some ([], []) else None)"
| "find_sep sep (c # cs) =
     (if starts_with sep (c # cs) then Some ([], drop (length sep) (c # cs))
      else case find_sep sep cs of None \<Rightarrow> None | Some (u, v) \<Rightarrow> Some (c # u, v))"

lemma find_sep_shorter:
  "find_sep sep s = Some (u, v) \<Longrightarrow> sep \<noteq> [] \<Longrightarrow> length v < length s"
proof (induction s arbitrary: u)
  case Nil
  then show ?case by simp
next
  case (Cons c cs)
  show ?case
  proof (cases "starts_with sep (c # cs)")
    case True
    with Cons.prems show ?thesis by (cases sep) auto
  next
    case False
    with Cons.prems obtain u' where "find_sep sep cs = Some (u', v)"
      by (auto split: option.splits)
    with Cons.IH Cons.prems(2) show ?thesis by fastforce
  qed
qed

text \<open>
  \<^verbatim>\<open>s.split(sep, maxsplit)\<close> with a separator: cut at the leftmost occurrence, at most
  \<open>maxsplit\<close> times when \<open>maxsplit\<close> is not negative.
\<close>

function str_split :: "string \<Rightarrow> int \<Rightarrow> string \<Rightarrow> string list" where
  "str_split sep k s =
     (if k = 0 \<or> sep = [] then [s]
      else case find_sep sep s of
             None \<Rightarrow> [s]
           | Some (u, v) \<Rightarrow> u # str_split sep (k - 1) v)"
  by pat_completeness auto
termination
  by (relation "measure (\<lambda>(sep, k, s). length s)") (auto dest: find_sep_shorter)

declare str_split.simps [simp del]

text \<open>
  \<^verbatim>\<open>s.split(None, maxsplit)\<close>: runs of whitespace separate the pieces, and no piece is
  empty; after \<open>maxsplit\<close> cuts the rest of the text is the last piece.
\<close>

function ws_split :: "int \<Rightarrow> string \<Rightarrow> string list" where
  "ws_split k s =
     (let s' = dropWhile is_space s
      in if s' = [] then []
         else if k = 0 then [s']
         else takeWhile (\<lambda>c. \<not> is_space c) s' # ws_split (k - 1) (dropWhile (\<lambda>c. \<not> is_space c) s'))"
  by pat_completeness auto
termination
proof (relation "measure (\<lambda>(k, s). length s)")
  show "wf (measure (\<lambda>(k, s). length s))" by simp
next
  fix k :: int and s s' :: string
  assume s': "s' = dropWhile is_space s" and ne: "s' \<noteq> []"
  from ne obtain c cs where c: "s' = c # cs" by (cases s') auto
  with s' have "\<not> is_space c" by (metis hd_dropWhile list.sel(1) ne)
  with c have "length (dropWhile (\<lambda>c. \<not> is_space c) s') \<le> length cs"
    by (simp add: length_dropWhile_le)
  also have "length cs < length s'" using c by simp
  also have "length s' \<le> length s" using s' by (simp add: length_dropWhile_le)
  finally show "((k - 1, dropWhile (\<lambda>c. \<not> is_space c) s'), (k, s)) \<in> measure (\<lambda>(k, s). length s)"
    by simp
qed

declare ws_split.simps [simp del]

text \<open>
  The method \<^verbatim>\<open>str.split\<close> itself: no separator means whitespace splitting, and an
  empty separator raises \<^verbatim>\<open>ValueError\<close>.
\<close>

definition py_split :: "string \<Rightarrow> string option \<Rightarrow> int \<Rightarrow> error + string list" where
  "py_split s sep maxsplit =
     (case sep of
        None \<Rightarrow> Inr (ws_split maxsplit s)
      | Some p \<Rightarrow> if p = [] then Inl ValueError else Inr (str_split p maxsplit s))"

section \<open>The grammar compiler\<close>

text \<open>
  \<^verbatim>\<open>def split(text, sep=None, maxsplit=-1):
    return [t.strip() for t in text.strip().split(sep, maxsplit) if t]\<close>
\<close>

definition split :: "string \<Rightarrow> string option \<Rightarrow> int \<Rightarrow> error + string list" where
  "split text sep maxsplit =
     (case py_split (strip text) sep maxsplit of
        Inl e \<Rightarrow> Inl e
      | Inr ts \<Rightarrow> Inr (map strip (filter (\<lambda>t. t \<noteq> []) ts)))"

text \<open>
  A grammar is a \<^verbatim>\<open>dict\<close>. Under the key \<^verbatim>\<open>' '\<close> it holds the whitespace pattern,
  a string; under a rule's left-hand side it holds the tuple of the rule's
  alternatives, each a list of atoms.
\<close>

datatype gval = Pat string | Alts "string list list"

type_synonym gram = "string \<rightharpoonup> gval"

text \<open>\<^verbatim>\<open>map(split, alternatives)\<close>, left to right; the first exception ends it.\<close>

fun map_split :: "string list \<Rightarrow> error + string list list" where
  "map_split [] = Inr []"
| "map_split (a # as) =
     (case split a None (-1) of
        Inl e \<Rightarrow> Inl e
      | Inr atoms \<Rightarrow> (case map_split as of Inl e \<Rightarrow> Inl e | Inr rest \<Rightarrow> Inr (atoms # rest)))"

text \<open>
  The body of the \<^verbatim>\<open>for line in ...\<close> loop of \<^verbatim>\<open>grammar\<close>. Unpacking
  \<^verbatim>\<open>lhs, rhs = split(line, ' => ', 1)\<close> raises \<^verbatim>\<open>ValueError\<close> unless the list has
  exactly two elements.
\<close>

fun grammar_loop :: "gram \<Rightarrow> string list \<Rightarrow> error + gram" where
  "grammar_loop G [] = Inr G"
| "grammar_loop G (line # lines) =
     (case split line (Some '' => '') 1 of
        Inl e \<Rightarrow> Inl e
      | Inr [lhs, rhs] \<Rightarrow>
          (case split rhs (Some '' | '') (-1) of
             Inl e \<Rightarrow> Inl e
           | Inr alternatives \<Rightarrow>
               (case map_split alternatives of
                  Inl e \<Rightarrow> Inl e
                | Inr alts \<Rightarrow> grammar_loop (G(lhs \<mapsto> Alts alts)) lines))
      | Inr _ \<Rightarrow> Inl ValueError)"

definition grammar :: "string \<Rightarrow> string \<Rightarrow> error + gram" where
  "grammar description whitespace =
     (let G = [[CHR '' ''] \<mapsto> Pat whitespace];
          description = str_replace (CHR 0x09) (CHR '' '') description
      in case split description (Some [CHR 0x0A]) (-1) of
           Inl e \<Rightarrow> Inl e
         | Inr lines \<Rightarrow> grammar_loop G lines)"

text \<open>
  \<^verbatim>\<open>def grammar(description, whitespace=r'\s*')\<close>: the value of the optional
  argument when the caller leaves it out, and the one-argument call.
\<close>

definition default_whitespace :: string where
  "default_whitespace = [CHR 0x5C, CHR ''s'', CHR ''*'']"

definition grammar1 :: "string \<Rightarrow> error + gram" where
  "grammar1 description = grammar description default_whitespace"

subsection \<open>Notions used to state the compiler's properties\<close>

text \<open>\<open>contains sep s\<close>: the text \<open>sep\<close> occurs in \<open>s\<close>.\<close>

fun contains :: "string \<Rightarrow> string \<Rightarrow> bool" where
  "contains sep [] = (sep = [])"
| "contains sep (c # cs) = (starts_with sep (c # cs) \<or> contains sep cs)"

text \<open>
  The lines that the loop of \<^verbatim>\<open>grammar\<close> runs over: the value of
  \<^verbatim>\<open>split(description, '\n')\<close> after the tabs are replaced.
\<close>

definition description_lines :: "string \<Rightarrow> string list" where
  "description_lines description =
     (case split (str_replace (CHR 0x09) (CHR '' '') description) (Some [CHR 0x0A]) (-1) of
        Inl e \<Rightarrow> []
      | Inr lines \<Rightarrow> lines)"

text \<open>
  The two sides of a rule line, cut at the leftmost \<^verbatim>\<open>' => '\<close> and stripped, and the
  groups of a right-hand side that \<^verbatim>\<open>' | '\<close> separates.
\<close>

definition rule_lhs :: "string \<Rightarrow> string" where
  "rule_lhs line = (case find_sep '' => '' (strip line) of None \<Rightarrow> [] | Some (u, v) \<Rightarrow> strip u)"

definition rule_rhs :: "string \<Rightarrow> string" where
  "rule_rhs line = (case find_sep '' => '' (strip line) of None \<Rightarrow> [] | Some (u, v) \<Rightarrow> strip v)"

definition bar_groups :: "string \<Rightarrow> string list" where
  "bar_groups rhs = str_split '' | '' (-1) rhs"

text \<open>The atoms of one alternative, \<^verbatim>\<open>split(alternative)\<close>, and the value stored for a line.\<close>

definition atoms_of :: "string \<Rightarrow> string list" where
  "atoms_of a = map strip (filter (\<lambda>t. t \<noteq> []) (ws_split (-1) (strip a)))"

definition rule_alts :: "string \<Rightarrow> string list list" where
  "rule_alts line = map atoms_of (map strip (filter (\<lambda>t. t \<noteq> []) (bar_groups (rule_rhs line))))"

definition add_rule :: "string \<Rightarrow> gram \<Rightarrow> gram" where
  "add_rule line G = G(rule_lhs line \<mapsto> Alts (rule_alts line))"

text \<open>
  A line whose right-hand side yields no alternative: it unpacks into two sides, and
  \<^verbatim>\<open>split(rhs, ' | ')\<close> is the empty list.
\<close>

definition no_alternatives :: "string \<Rightarrow> bool" where
  "no_alternatives line =
     (case split line (Some '' => '') 1 of
        Inr [lhs, rhs] \<Rightarrow> split rhs (Some '' | '') (-1) = Inr []
      | _ \<Rightarrow> False)"

text \<open>
  A well-formed description, after the mini-language
  \<^verbatim>\<open><line> ::= <symbol> " => " <alt> (" | " <alt>)*\<close>: every line has the rule separator,
  and none of the groups of its right-hand side is empty.
\<close>

definition well_formed :: "string \<Rightarrow> bool" where
  "well_formed description \<longleftrightarrow>
     (\<forall>line\<in>set (description_lines description).
        contains '' => '' line \<and> (\<forall>g\<in>set (bar_groups (rule_rhs line)). g \<noteq> []))"

text \<open>A description that defines \<open>x\<close> twice and has a second separator on a line.\<close>

definition sample_description :: string where
  "sample_description =
     ''x => a b | c'' @ [CHR 0x0A] @ ''y => x => q'' @ [CHR 0x0A] @ ''x => d | e f | g''"

section \<open>Values of the interpreter\<close>

text \<open>
  The arguments and results of the interpreter are Python values: \<^verbatim>\<open>None\<close>, strings,
  lists (a parse tree is a list whose head is the symbol) and tuples (the argument
  tuple \<^verbatim>\<open>args\<close> of the memo wrapper). Lists cannot be hashed; a tuple can when all
  its elements can.
\<close>

datatype pyval = PNone | PStr string | PList "pyval list" | PTuple "pyval list"

fun hashable :: "pyval \<Rightarrow> bool" where
  "hashable PNone = True"
| "hashable (PStr s) = True"
| "hashable (PList xs) = False"
| "hashable (PTuple xs) = list_all hashable xs"

text \<open>\<^verbatim>\<open>text[n:]\<close>\<close>

fun slice_from :: "pyval \<Rightarrow> nat \<Rightarrow> error + pyval" where
  "slice_from PNone n = Inl TypeError"
| "slice_from (PStr s) n = Inr (PStr (drop n s))"
| "slice_from (PList xs) n = Inr (PList (drop n xs))"
| "slice_from (PTuple xs) n = Inr (PTuple (drop n xs))"

text \<open>\<^verbatim>\<open>[atom] + tree\<close>: a list can only be concatenated with a list.\<close>

fun list_plus :: "pyval list \<Rightarrow> pyval \<Rightarrow> error + pyval" where
  "list_plus xs (PList ys) = Inr (PList (xs @ ys))"
| "list_plus xs _ = Inl TypeError"

subsection \<open>\<^verbatim>\<open>repr\<close>, \<^verbatim>\<open>str\<close> and the string formatting operator\<close>

definition hex_digit :: "nat \<Rightarrow> char" where
  "hex_digit n = (if n < 10 then char_of (48 + n) else char_of (87 + n))"

definition repr_char :: "char \<Rightarrow> char \<Rightarrow> string" where
  "repr_char quote c =
     (if c = quote \<or> c = CHR 0x5C then [CHR 0x5C, c]
      else if c = CHR 0x09 then [CHR 0x5C, CHR ''t'']
      else if c = CHR 0x0A then [CHR 0x5C, CHR ''n'']
      else if c = CHR 0x0D then [CHR 0x5C, CHR ''r'']
      else if (of_char c :: nat) < 32 \<or> (of_char c :: nat) \<ge> 127
        then [CHR 0x5C, CHR ''x'', hex_digit (of_char c div 16), hex_digit (of_char c mod 16)]
      else [c])"

definition repr_str :: "string \<Rightarrow> string" where
  "repr_str s =
     (let quote = (if CHR 0x27 \<in> set s \<and> CHR 0x22 \<notin> set s then CHR 0x22 else CHR 0x27)
      in quote # concat (map (repr_char quote) s) @ [quote])"

fun join :: "string \<Rightarrow> string list \<Rightarrow> string" where
  "join sep [] = []"
| "join sep [x] = x"
| "join sep (x # y # ys) = x @ sep @ join sep (y # ys)"

fun py_repr :: "pyval \<Rightarrow> string" where
  "py_repr PNone = ''None''"
| "py_repr (PStr s) = repr_str s"
| "py_repr (PList xs) = ''['' @ join '', '' (map py_repr xs) @ '']''"
| "py_repr (PTuple xs) =
     ''('' @ join '', '' (map py_repr xs) @ (if length xs = 1 then '','' else []) @ '')''"

fun py_str :: "pyval \<Rightarrow> string" where
  "py_str (PStr s) = s"
| "py_str v = py_repr v"

text \<open>
  \<^verbatim>\<open>format % arg\<close> on a byte string, for the values above. A tuple is the vector of
  the arguments, any other value is the one argument. A directive is \<^verbatim>\<open>%\<close>, an
  optional mapping key, flags, a width, a precision, a length modifier and the
  conversion. None of the values is a number or a mapping, so a \<^verbatim>\<open>*\<close>, a key and a
  numeric conversion raise \<^verbatim>\<open>TypeError\<close>. (The limit of the machine on a width or a
  precision is not modelled.)
\<close>

definition is_flag :: "char \<Rightarrow> bool" where
  "is_flag c \<longleftrightarrow> c = CHR ''-'' \<or> c = CHR ''+'' \<or> c = CHR '' '' \<or> c = CHR ''#'' \<or> c = CHR ''0''"

definition is_digit :: "char \<Rightarrow> bool" where
  "is_digit c \<longleftrightarrow> (48::nat) \<le> of_char c \<and> (of_char c :: nat) \<le> 57"

definition digits_value :: "string \<Rightarrow> nat" where
  "digits_value ds = foldl (\<lambda>n c. 10 * n + (of_char c - 48)) 0 ds"

text \<open>The key of \<^verbatim>\<open>%(key)\<close>: whether the parenthesis opened before the text is closed in it.\<close>

fun key_closed :: "nat \<Rightarrow> string \<Rightarrow> bool" where
  "key_closed depth [] = False"
| "key_closed depth (c # cs) =
     (if c = CHR '')'' then (depth = 0 \<or> key_closed (depth - 1) cs)
      else if c = CHR ''('' then key_closed (Suc depth) cs
      else key_closed depth cs)"

text \<open>
  One directive, read from the text after its \<^verbatim>\<open>%\<close>: the flags, the width, the
  precision and the length modifier, then the conversion character. A \<^verbatim>\<open>*\<close> asks
  for an integer argument and raises \<^verbatim>\<open>TypeError\<close> where it stands; a format that ends
  before the conversion character raises \<^verbatim>\<open>ValueError\<close>.
\<close>

record directive =
  ljust :: bool
  width :: nat
  prec :: "nat option"
  conv :: char
  rest :: string

definition read_conv :: "bool \<Rightarrow> nat \<Rightarrow> nat option \<Rightarrow> string \<Rightarrow> error + directive" where
  "read_conv lj w p cs =
     (let cs' = (if cs \<noteq> [] \<and> (hd cs = CHR ''h'' \<or> hd cs = CHR ''l'' \<or> hd cs = CHR ''L'')
                 then tl cs else cs)
      in case cs' of
           [] \<Rightarrow> Inl ValueError
         | c # r \<Rightarrow> Inr \<lparr>ljust = lj, width = w, prec = p, conv = c, rest = r\<rparr>)"

definition read_prec :: "bool \<Rightarrow> nat \<Rightarrow> string \<Rightarrow> error + directive" where
  "read_prec lj w cs =
     (case cs of
        [] \<Rightarrow> Inl ValueError
      | c # r \<Rightarrow>
          if c \<noteq> CHR ''.'' then read_conv lj w None cs
          else if r \<noteq> [] \<and> hd r = CHR ''*'' then Inl TypeError
          else read_conv lj w (Some (digits_value (takeWhile is_digit r))) (dropWhile is_digit r))"

definition read_directive :: "string \<Rightarrow> error + directive" where
  "read_directive cs =
     (let lj = (CHR ''-'' \<in> set (takeWhile is_flag cs)); r = dropWhile is_flag cs
      in if r \<noteq> [] \<and> hd r = CHR ''*'' then Inl TypeError
         else read_prec lj (digits_value (takeWhile is_digit r)) (dropWhile is_digit r))"

lemma read_conv_shorter: "read_conv lj w p cs = Inr d \<Longrightarrow> length (rest d) < length cs"
  by (cases cs; cases "tl cs") (auto simp: read_conv_def split: if_splits list.splits)

lemma read_prec_shorter: "read_prec lj w cs = Inr d \<Longrightarrow> length (rest d) < length cs"
proof (cases cs)
  case Nil
  assume "read_prec lj w cs = Inr d"
  with Nil show ?thesis by (simp add: read_prec_def)
next
  case (Cons c r)
  assume a: "read_prec lj w cs = Inr d"
  show ?thesis
  proof (cases "c = CHR ''.''")
    case False
    with a Cons have "read_conv lj w None cs = Inr d" by (simp add: read_prec_def)
    then show ?thesis by (rule read_conv_shorter)
  next
    case True
    with a Cons have
      "read_conv lj w (Some (digits_value (takeWhile is_digit r))) (dropWhile is_digit r) = Inr d"
      by (simp add: read_prec_def split: if_splits)
    then have "length (rest d) < length (dropWhile is_digit r)" by (rule read_conv_shorter)
    also have "\<dots> \<le> length r" by (rule length_dropWhile_le)
    finally show ?thesis using Cons by simp
  qed
qed

lemma read_directive_shorter: "read_directive cs = Inr d \<Longrightarrow> length (rest d) < length cs"
proof -
  assume "read_directive cs = Inr d"
  then have "read_prec (CHR ''-'' \<in> set (takeWhile is_flag cs))
      (digits_value (takeWhile is_digit (dropWhile is_flag cs)))
      (dropWhile is_digit (dropWhile is_flag cs)) = Inr d"
    by (simp add: read_directive_def Let_def split: if_splits)
  then have "length (rest d) < length (dropWhile is_digit (dropWhile is_flag cs))"
    by (rule read_prec_shorter)
  also have "\<dots> \<le> length (dropWhile is_flag cs)" by (rule length_dropWhile_le)
  also have "\<dots> \<le> length cs" by (rule length_dropWhile_le)
  finally show ?thesis .
qed

definition pad :: "directive \<Rightarrow> string \<Rightarrow> string" where
  "pad d s =
     (let fill = replicate (width d - length s) (CHR '' '')
      in if ljust d then s @ fill else fill @ s)"

definition truncate :: "directive \<Rightarrow> string \<Rightarrow> string" where
  "truncate d s = (case prec d of None \<Rightarrow> s | Some n \<Rightarrow> take n s)"

text \<open>
  The loop over the format. \<open>args\<close> are the arguments not yet used; \<open>is_map\<close> holds
  for a list argument, which Python takes for a mapping: then a mapping key is looked
  up (and fails, the key being a string), and arguments may be left over.
\<close>

function fmt_loop :: "string \<Rightarrow> pyval list \<Rightarrow> bool \<Rightarrow> error + string" where
  "fmt_loop [] args is_map = (if args \<noteq> [] \<and> \<not> is_map then Inl TypeError else Inr [])"
| "fmt_loop (c # cs) args is_map =
     (if c \<noteq> CHR ''%'' then
        (case fmt_loop cs args is_map of Inl e \<Rightarrow> Inl e | Inr out \<Rightarrow> Inr (c # out))
      else if cs \<noteq> [] \<and> hd cs = CHR ''('' then
        (if is_map \<and> \<not> key_closed 0 (tl cs) then Inl ValueError else Inl TypeError)
      else
        (case read_directive cs of
           Inl e \<Rightarrow> Inl e
         | Inr d \<Rightarrow>
             if conv d = CHR ''%'' then
               (case fmt_loop (rest d) args is_map of
                  Inl e \<Rightarrow> Inl e
                | Inr out \<Rightarrow> Inr (pad d ''%'' @ out))
             else
               (case args of
                  [] \<Rightarrow> Inl TypeError
                | v # args' \<Rightarrow>
                    if conv d = CHR ''s'' \<or> conv d = CHR ''r'' then
                      (case fmt_loop (rest d) args' is_map of
                         Inl e \<Rightarrow> Inl e
                       | Inr out \<Rightarrow>
                           Inr (pad d (truncate d (if conv d = CHR ''s'' then py_str v else py_repr v))
                                @ out))
                    else if conv d = CHR ''c'' then
                      (case v of
                         PStr [ch] \<Rightarrow>
                           (case fmt_loop (rest d) args' is_map of
                              Inl e \<Rightarrow> Inl e
                            | Inr out \<Rightarrow> Inr (pad d [ch] @ out))
                       | _ \<Rightarrow> Inl TypeError)
                    else if conv d \<in> set ''iduoxXeEfFgG'' then Inl TypeError
                    else Inl ValueError)))"
  by pat_completeness auto
termination
  by (relation "measure (\<lambda>(cs, args, is_map). length cs)")
     (auto dest: read_directive_shorter)

declare fmt_loop.simps [simp del]

definition str_mod :: "string \<Rightarrow> pyval \<Rightarrow> error + string" where
  "str_mod format arg =
     (case arg of
        PTuple xs \<Rightarrow> fmt_loop format xs False
      | PList xs \<Rightarrow> fmt_loop format [arg] True
      | _ \<Rightarrow> fmt_loop format [arg] False)"

section \<open>The memo decorator and the interpreter\<close>

text \<open>
  \<^verbatim>\<open>Fail = (None, None)\<close>. A result of the interpreter is a pair of a tree and a
  remainder.
\<close>

type_synonym result = "pyval \<times> pyval"

definition Fail :: result where
  "Fail = (PNone, PNone)"

text \<open>
  The dictionary \<^verbatim>\<open>cache\<close> of \<^verbatim>\<open>memo\<close> is the state of the interpreter: a function
  that may touch it takes the cache and returns the new one with its result. A Python
  callable is applied to the list of its positional arguments.
\<close>

type_synonym cache = "pyval list \<rightharpoonup> result"

type_synonym callable = "pyval list \<Rightarrow> cache \<Rightarrow> (error + result) \<times> cache"

text \<open>
  \<^verbatim>\<open>def _f(*args):
    try:
        return cache[args]
    except KeyError:
        cache[args] = result = f(*args)
        return result
    except TypeError:
        # some element of args can't be a dict key
        return f(args)\<close>
  The lookup raises \<^verbatim>\<open>TypeError\<close> when the tuple \<^verbatim>\<open>args\<close> cannot be hashed, and
  \<^verbatim>\<open>KeyError\<close> when it is not in the cache. \<^verbatim>\<open>f(*args)\<close> applies \<open>f\<close> to the
  arguments, \<^verbatim>\<open>f(args)\<close> applies it to one argument, the tuple. An exception of \<open>f\<close>
  leaves the handler, and nothing is stored.
\<close>

definition memo :: "callable \<Rightarrow> callable" where
  "memo f args cache =
     (if \<not> hashable (PTuple args) then f [PTuple args] cache
      else case cache args of
             Some result \<Rightarrow> (Inr result, cache)
           | None \<Rightarrow>
               (case f args cache of
                  (Inl e, cache') \<Rightarrow> (Inl e, cache')
                | (Inr result, cache') \<Rightarrow> (Inr result, cache'(args \<mapsto> result))))"

text \<open>
  The regular expression library is a parameter of the interpreter: a \<open>matcher\<close> stands
  for \<^verbatim>\<open>m = re.match(pattern, text)\<close> followed by \<^verbatim>\<open>m.group(1)\<close> and \<^verbatim>\<open>m.end()\<close>. It
  raises (\<open>Inl\<close>: a pattern that does not compile, a text that is no string, a
  pattern without a first group), finds no match (\<open>Inr None\<close>), or yields the first
  group, which is \<^verbatim>\<open>None\<close> when the group took no part in the match, and the end of
  the match.
\<close>

type_synonym matcher = "string \<Rightarrow> pyval \<Rightarrow> error + (pyval \<times> nat) option"

text \<open>
  \<^verbatim>\<open>def parse_sequence(sequence, text):
    result = []
    for atom in sequence:
        tree, text = parse_atom(atom, text)
        if text is None: return Fail
        result.append(tree)
    return result, text\<close>
  The first argument is the callable that the name \<^verbatim>\<open>parse_atom\<close> is bound to.
\<close>

fun parse_sequence ::
  "callable \<Rightarrow> string list \<Rightarrow> pyval \<Rightarrow> pyval list \<Rightarrow> cache \<Rightarrow> (error + result) \<times> cache" where
  "parse_sequence pa [] text result cache = (Inr (PList result, text), cache)"
| "parse_sequence pa (atom # sequence) text result cache =
     (case pa [PStr atom, text] cache of
        (Inl e, cache') \<Rightarrow> (Inl e, cache')
      | (Inr (tree, text'), cache') \<Rightarrow>
          if text' = PNone then (Inr Fail, cache')
          else parse_sequence pa sequence text' (result @ [tree]) cache')"

text \<open>
  \<^verbatim>\<open>for alternative in grammar[atom]:
    tree, rem = parse_sequence(alternative, text)
    if rem is not None: return [atom]+tree, rem
return Fail\<close>
\<close>

fun parse_alternatives ::
  "callable \<Rightarrow> pyval \<Rightarrow> string list list \<Rightarrow> pyval \<Rightarrow> cache \<Rightarrow> (error + result) \<times> cache" where
  "parse_alternatives pa atom [] text cache = (Inr Fail, cache)"
| "parse_alternatives pa atom (alternative # alternatives) text cache =
     (case parse_sequence pa alternative text [] cache of
        (Inl e, cache') \<Rightarrow> (Inl e, cache')
      | (Inr (tree, rem), cache') \<Rightarrow>
          if rem \<noteq> PNone then
            (case list_plus [atom] tree of
               Inl e \<Rightarrow> (Inl e, cache')
             | Inr t \<Rightarrow> (Inr (t, rem), cache'))
          else parse_alternatives pa atom alternatives text cache')"

text \<open>
  Iterating over \<^verbatim>\<open>grammar[atom]\<close>: the alternatives of a rule, each a list of atoms.
  The whitespace entry is a string; a loop over it yields its characters, and a loop
  over a character yields the character.
\<close>

fun alternatives_of :: "gval \<Rightarrow> string list list" where
  "alternatives_of (Alts alts) = alts"
| "alternatives_of (Pat p) = map (\<lambda>c. [[c]]) p"

text \<open>\<^verbatim>\<open>atom in grammar\<close>: the keys are strings; a value that cannot be hashed raises.\<close>

definition in_grammar :: "gram \<Rightarrow> pyval \<Rightarrow> error + gval option" where
  "in_grammar G atom =
     (if \<not> hashable atom then Inl TypeError
      else case atom of PStr a \<Rightarrow> Inr (G a) | _ \<Rightarrow> Inr None)"

text \<open>
  The terminal branch of \<^verbatim>\<open>parse_atom\<close>, which does not touch the cache:
  \<^verbatim>\<open>m = re.match(tokenizer % atom, text)
return Fail if (not m) else (m.group(1), text[m.end():])\<close>
\<close>

definition match_terminal :: "matcher \<Rightarrow> string \<Rightarrow> pyval \<Rightarrow> pyval \<Rightarrow> error + result" where
  "match_terminal re_match tokenizer atom text =
     (case str_mod tokenizer atom of
        Inl e \<Rightarrow> Inl e
      | Inr pattern \<Rightarrow>
          (case re_match pattern text of
             Inl e \<Rightarrow> Inl e
           | Inr None \<Rightarrow> Inr Fail
           | Inr (Some (group1, end)) \<Rightarrow>
               (case slice_from text end of
                  Inl e \<Rightarrow> Inl e
                | Inr rem \<Rightarrow> Inr (group1, rem))))"

text \<open>
  \<^verbatim>\<open>def parse_atom(atom, text):
    if atom in grammar:  # Non-Terminal: tuple of alternatives
        for alternative in grammar[atom]: ...
        return Fail
    else:  # Terminal: match characters against start of text
        ...\<close>
  the function before it is decorated; \<open>pa\<close> is the callable that its body reaches
  under the name \<^verbatim>\<open>parse_atom\<close>. It has two parameters: a call with another number of
  arguments raises \<^verbatim>\<open>TypeError\<close>.
\<close>

definition parse_atom_body ::
  "gram \<Rightarrow> matcher \<Rightarrow> string \<Rightarrow> callable \<Rightarrow> callable" where
  "parse_atom_body G re_match tokenizer pa args cache =
     (case args of
        [atom, text] \<Rightarrow>
          (case in_grammar G atom of
             Inl e \<Rightarrow> (Inl e, cache)
           | Inr (Some alts) \<Rightarrow> parse_alternatives pa atom (alternatives_of alts) text cache
           | Inr None \<Rightarrow> (match_terminal re_match tokenizer atom text, cache))
      | _ \<Rightarrow> (Inl TypeError, cache))"

text \<open>
  The decorated \<^verbatim>\<open>parse_atom\<close>. The first argument bounds the depth of the calls of
  \<^verbatim>\<open>parse_atom\<close> inside one another, as the recursion limit of the interpreter does:
  a call beyond it raises \<^verbatim>\<open>RecursionError\<close>. A grammar with left recursion reaches
  every bound.
\<close>

fun parse_atom :: "nat \<Rightarrow> gram \<Rightarrow> matcher \<Rightarrow> string \<Rightarrow> callable" where
  "parse_atom 0 G re_match tokenizer = (\<lambda>args cache. (Inl RecursionError, cache))"
| "parse_atom (Suc depth) G re_match tokenizer =
     memo (parse_atom_body G re_match tokenizer (parse_atom depth G re_match tokenizer))"

text \<open>
  \<^verbatim>\<open>tokenizer = grammar[' '] + '(%s)'\<close>: the entry may be missing, and a tuple of
  alternatives cannot be concatenated with a string.
\<close>

definition tokenizer_of :: "gram \<Rightarrow> error + string" where
  "tokenizer_of G =
     (case G [CHR '' ''] of
        None \<Rightarrow> Inl KeyError
      | Some (Alts alts) \<Rightarrow> Inl TypeError
      | Some (Pat whitespace) \<Rightarrow> Inr (whitespace @ ''(%s)''))"

text \<open>
  \<^verbatim>\<open>def parse(start_symbol, text, grammar)\<close>, with the bound on the depth of the
  recursion as its first argument. Every call decorates a new \<^verbatim>\<open>parse_atom\<close>, so it
  starts from an empty cache.
\<close>

definition parse :: "nat \<Rightarrow> matcher \<Rightarrow> pyval \<Rightarrow> pyval \<Rightarrow> gram \<Rightarrow> error + result" where
  "parse depth re_match start_symbol text G =
     (case tokenizer_of G of
        Inl e \<Rightarrow> Inl e
      | Inr tokenizer \<Rightarrow>
          fst (parse_atom depth G re_match tokenizer [start_symbol, text] Map.empty))"

subsection \<open>The interpreter with the memoization disabled\<close>

text \<open>
  The same \<^verbatim>\<open>parse\<close> without the line \<^verbatim>\<open>@memo\<close>: the name \<^verbatim>\<open>parse_atom\<close> is bound to the
  function as it is written.
\<close>

fun parse_atom_direct :: "nat \<Rightarrow> gram \<Rightarrow> matcher \<Rightarrow> string \<Rightarrow> callable" where
  "parse_atom_direct 0 G re_match tokenizer = (\<lambda>args cache. (Inl RecursionError, cache))"
| "parse_atom_direct (Suc depth) G re_match tokenizer =
     parse_atom_body G re_match tokenizer (parse_atom_direct depth G re_match tokenizer)"

definition parse_direct :: "nat \<Rightarrow> matcher \<Rightarrow> pyval \<Rightarrow> pyval \<Rightarrow> gram \<Rightarrow> error + result" where
  "parse_direct depth re_match start_symbol text G =
     (case tokenizer_of G of
        Inl e \<Rightarrow> Inl e
      | Inr tokenizer \<Rightarrow>
          fst (parse_atom_direct depth G re_match tokenizer [start_symbol, text] Map.empty))"

section \<open>A fragment of the regular expressions of \<^verbatim>\<open>re\<close>\<close>

text \<open>
  Modelled from the documentation of Python's \<^verbatim>\<open>re\<close> module, which is not part of the
  repository: patterns over byte strings built from literal characters, \<^verbatim>\<open>.\<close>, the
  escapes \<^verbatim>\<open>\s \S \d \D \w \W \t \n \r \f \v\<close> and escaped punctuation, character
  classes with ranges and negation, groups \<^verbatim>\<open>(...)\<close> and \<^verbatim>\<open>(?:...)\<close>, alternation and
  the greedy operators \<^verbatim>\<open>* + ?\<close>. Everything else (anchors, counted and lazy
  repetition, back references, look-around, flags, other escapes of letters and
  digits, and the repetition of an expression that can match the empty string without
  a bound on its length, on which the versions of Python differ) is outside the
  fragment: for such a pattern the model answers \<open>NotModelled\<close>. The general
  properties of the interpreter hold for every matcher; only the statements about
  concrete inputs use this one.
\<close>

datatype citem =
    CChar char | CRange char char
  | CSpace | CDigit | CWord | CNotSpace | CNotDigit | CNotWord

definition is_word :: "char \<Rightarrow> bool" where
  "is_word c \<longleftrightarrow>
     (let n = (of_char c :: nat)
      in (48 \<le> n \<and> n \<le> 57) \<or> (65 \<le> n \<and> n \<le> 90) \<or> (97 \<le> n \<and> n \<le> 122) \<or> n = 95)"

fun in_item :: "char \<Rightarrow> citem \<Rightarrow> bool" where
  "in_item c (CChar d) = (c = d)"
| "in_item c (CRange lo hi) = ((of_char lo :: nat) \<le> of_char c \<and> (of_char c :: nat) \<le> of_char hi)"
| "in_item c CSpace = is_space c"
| "in_item c CDigit = is_digit c"
| "in_item c CWord = is_word c"
| "in_item c CNotSpace = (\<not> is_space c)"
| "in_item c CNotDigit = (\<not> is_digit c)"
| "in_item c CNotWord = (\<not> is_word c)"

text \<open>
  \<open>Sym negated items\<close> matches one character that is in one of the items (or, negated,
  in none); \<open>Group n r\<close> is the capturing group number \<open>n\<close>.
\<close>

datatype rx = Eps | Sym bool "citem list" | Cat rx rx | Or rx rx | Star rx | Group nat rx

type_synonym mstate = "string \<times> (nat \<Rightarrow> string option)"

text \<open>
  Backtracking, as the list of the ways to match a prefix of the text, in the order
  in which the matcher of \<^verbatim>\<open>re\<close> tries them: the left alternative first, the longer
  repetition first. A state is the text not yet matched and the groups captured so
  far. A repetition whose body matched the empty string is not entered again.
\<close>

fun ms :: "rx \<Rightarrow> mstate \<Rightarrow> mstate list" where
  "ms Eps st = [st]"
| "ms (Sym negated items) (s, cp) =
     (case s of
        [] \<Rightarrow> []
      | c # cs \<Rightarrow> if list_ex (in_item c) items \<noteq> negated then [(cs, cp)] else [])"
| "ms (Cat r1 r2) st = concat (map (ms r2) (ms r1 st))"
| "ms (Or r1 r2) st = ms r1 st @ ms r2 st"
| "ms (Star r) (s, cp) =
     concat (map (\<lambda>(s', cp'). if length s' < length s then ms (Star r) (s', cp') else [(s', cp')])
                 (ms r (s, cp)))
     @ [(s, cp)]"
| "ms (Group n r) (s, cp) =
     map (\<lambda>(s', cp'). (s', cp'(n := Some (take (length s - length s') s)))) (ms r (s, cp))"

fun ngroups :: "rx \<Rightarrow> nat" where
  "ngroups Eps = 0"
| "ngroups (Sym negated items) = 0"
| "ngroups (Cat r1 r2) = max (ngroups r1) (ngroups r2)"
| "ngroups (Or r1 r2) = max (ngroups r1) (ngroups r2)"
| "ngroups (Star r) = ngroups r"
| "ngroups (Group n r) = max n (ngroups r)"

text \<open>The least and the greatest length of a match (\<open>None\<close>: no bound).\<close>

fun min_width :: "rx \<Rightarrow> nat" where
  "min_width Eps = 0"
| "min_width (Sym negated items) = 1"
| "min_width (Cat r1 r2) = min_width r1 + min_width r2"
| "min_width (Or r1 r2) = min (min_width r1) (min_width r2)"
| "min_width (Star r) = 0"
| "min_width (Group n r) = min_width r"

fun bounded :: "rx \<Rightarrow> bool" where
  "bounded Eps = True"
| "bounded (Sym negated items) = True"
| "bounded (Cat r1 r2) = (bounded r1 \<and> bounded r2)"
| "bounded (Or r1 r2) = (bounded r1 \<and> bounded r2)"
| "bounded (Star r) = False"
| "bounded (Group n r) = bounded r"

subsection \<open>Reading a pattern\<close>

datatype 'a pres = POk 'a | PError | PUnsupported

text \<open>
  An escape \<^verbatim>\<open>\e\<close>: a category, a control character or the character itself for
  punctuation. \<open>None\<close> is an escape outside the fragment.
\<close>

definition escape_item :: "char \<Rightarrow> citem option" where
  "escape_item e =
     (if e = CHR ''s'' then Some CSpace else if e = CHR ''S'' then Some CNotSpace
      else if e = CHR ''d'' then Some CDigit else if e = CHR ''D'' then Some CNotDigit
      else if e = CHR ''w'' then Some CWord else if e = CHR ''W'' then Some CNotWord
      else if e = CHR ''t'' then Some (CChar (CHR 0x09))
      else if e = CHR ''n'' then Some (CChar (CHR 0x0A))
      else if e = CHR ''v'' then Some (CChar (CHR 0x0B))
      else if e = CHR ''f'' then Some (CChar (CHR 0x0C))
      else if e = CHR ''r'' then Some (CChar (CHR 0x0D))
      else if is_word e \<or> (of_char e :: nat) \<ge> 128 then None
      else Some (CChar e))"

text \<open>
  The text of a class up to its closing bracket, as tokens: a character, or an escaped
  character (marked \<open>True\<close>). A bracket that comes first is a member of the class.
  \<open>None\<close>: the class is not closed.
\<close>

fun class_tokens :: "bool \<Rightarrow> string \<Rightarrow> ((bool \<times> char) list \<times> string) option" where
  "class_tokens first [] = None"
| "class_tokens first [c] = (if c = CHR '']'' \<and> \<not> first then Some ([], []) else None)"
| "class_tokens first (c # e # cs) =
     (if c = CHR '']'' \<and> \<not> first then Some ([], e # cs)
      else if c = CHR 0x5C then
        (case class_tokens False cs of None \<Rightarrow> None | Some (ts, r) \<Rightarrow> Some ((True, e) # ts, r))
      else
        (case class_tokens False (e # cs) of None \<Rightarrow> None | Some (ts, r) \<Rightarrow> Some ((False, c) # ts, r)))"

lemma class_tokens_shorter: "class_tokens first s = Some (ts, r) \<Longrightarrow> length r < length s"
  by (induction first s arbitrary: ts r rule: class_tokens.induct)
     (fastforce split: if_splits option.splits)+

definition token_item :: "bool \<times> char \<Rightarrow> citem pres" where
  "token_item t =
     (if fst t then (case escape_item (snd t) of None \<Rightarrow> PUnsupported | Some i \<Rightarrow> POk i)
      else POk (CChar (snd t)))"

text \<open>
  The members of a class: \<^verbatim>\<open>a-b\<close> is a range, whose ends must be characters in
  increasing order.
\<close>

definition add_item :: "bool \<times> char \<Rightarrow> citem list pres \<Rightarrow> citem list pres" where
  "add_item a others =
     (case token_item a of
        POk i \<Rightarrow> (case others of POk items \<Rightarrow> POk (i # items) | e \<Rightarrow> e)
      | PError \<Rightarrow> PError
      | PUnsupported \<Rightarrow> PUnsupported)"

definition add_range :: "bool \<times> char \<Rightarrow> bool \<times> char \<Rightarrow> citem list pres \<Rightarrow> citem list pres" where
  "add_range a b others =
     (case token_item a of
        PError \<Rightarrow> PError
      | PUnsupported \<Rightarrow> PUnsupported
      | POk ia \<Rightarrow>
          (case token_item b of
             PError \<Rightarrow> PError
           | PUnsupported \<Rightarrow> PUnsupported
           | POk ib \<Rightarrow>
               (case (ia, ib) of
                  (CChar lo, CChar hi) \<Rightarrow>
                    if (of_char hi :: nat) < of_char lo then PError
                    else (case others of POk items \<Rightarrow> POk (CRange lo hi # items) | e \<Rightarrow> e)
                | _ \<Rightarrow> PError)))"

fun class_items :: "(bool \<times> char) list \<Rightarrow> citem list pres" where
  "class_items [] = POk []"
| "class_items [a] = add_item a (POk [])"
| "class_items [a, b] = add_item a (class_items [b])"
| "class_items (a # b # c # ts) =
     (if b = (False, CHR ''-'') then add_range a c (class_items ts)
      else add_item a (class_items (b # c # ts)))"

text \<open>
  The class that starts after an opening bracket: whether it is negated, its members
  and the rest of the pattern.
\<close>

definition read_class :: "string \<Rightarrow> (rx \<times> string) pres" where
  "read_class s =
     (let negated = (s \<noteq> [] \<and> hd s = CHR ''^'');
          s' = (if negated then tl s else s)
      in case class_tokens True s' of
           None \<Rightarrow> PError
         | Some (ts, r) \<Rightarrow>
             (case class_items ts of
                POk items \<Rightarrow> POk (Sym negated items, r)
              | PError \<Rightarrow> PError
              | PUnsupported \<Rightarrow> PUnsupported))"

lemma read_class_shorter: "read_class s = POk (x, r) \<Longrightarrow> length r < length s"
proof -
  assume a: "read_class s = POk (x, r)"
  let ?s' = "if s \<noteq> [] \<and> hd s = CHR ''^'' then tl s else s"
  from a obtain ts where "class_tokens True ?s' = Some (ts, r)"
    by (auto simp: read_class_def Let_def split: option.splits pres.splits)
  then have "length r < length ?s'" by (rule class_tokens_shorter)
  also have "\<dots> \<le> length s" by simp
  finally show ?thesis .
qed

text \<open>
  The pattern is read from left to right with a stack of the groups that are open. A
  frame holds the number of its group (\<open>None\<close> for \<^verbatim>\<open>(?:\<close> and for the pattern as a
  whole), the alternatives that are complete and the items of the alternative being
  read, both latest first; an item is marked when a repetition operator made it.
\<close>

type_synonym frame = "nat option \<times> rx list \<times> (rx \<times> bool) list"

fun cat_items :: "rx list \<Rightarrow> rx" where
  "cat_items [] = Eps"
| "cat_items [x] = x"
| "cat_items (x # y # xs) = Cat x (cat_items (y # xs))"

fun or_alternatives :: "rx list \<Rightarrow> rx" where
  "or_alternatives [] = Eps"
| "or_alternatives [x] = x"
| "or_alternatives (x # y # xs) = Or x (or_alternatives (y # xs))"

definition sequence_of :: "(rx \<times> bool) list \<Rightarrow> rx" where
  "sequence_of cur = cat_items (map fst (rev cur))"

definition close_frame :: "frame \<Rightarrow> rx" where
  "close_frame fr = (case fr of (kind, alts, cur) \<Rightarrow> or_alternatives (rev (sequence_of cur # alts)))"

definition group_item :: "frame \<Rightarrow> rx" where
  "group_item fr = (case fst fr of None \<Rightarrow> close_frame fr | Some n \<Rightarrow> Group n (close_frame fr))"

definition push_item :: "rx \<Rightarrow> frame \<Rightarrow> frame" where
  "push_item x fr = (case fr of (kind, alts, cur) \<Rightarrow> (kind, alts, (x, False) # cur))"

definition next_alternative :: "frame \<Rightarrow> frame" where
  "next_alternative fr = (case fr of (kind, alts, cur) \<Rightarrow> (kind, sequence_of cur # alts, []))"

text \<open>
  A repetition operator applies to the last item. There must be one; after another
  operator \<^verbatim>\<open>*\<close> is an error, \<^verbatim>\<open>?\<close> and \<^verbatim>\<open>+\<close> are outside the fragment, and so is the
  repetition of an item that matches the empty string and has no greatest length.
\<close>

definition quantify :: "char \<Rightarrow> frame \<Rightarrow> frame pres" where
  "quantify c fr =
     (case fr of
        (kind, alts, []) \<Rightarrow> PError
      | (kind, alts, (x, marked) # cur) \<Rightarrow>
          if marked then (if c = CHR ''*'' then PError else PUnsupported)
          else if min_width x = 0 \<and> \<not> bounded x then PUnsupported
          else POk (kind, alts,
                 ((if c = CHR ''*'' then Star x
                   else if c = CHR ''+'' then Cat x (Star x)
                   else Or x Eps), True) # cur))"

function rx_loop :: "string \<Rightarrow> nat \<Rightarrow> frame \<Rightarrow> frame list \<Rightarrow> rx pres" where
  "rx_loop s k fr stack =
     (case s of
        [] \<Rightarrow> if stack = [] then POk (close_frame fr) else PError
      | c # cs \<Rightarrow>
          if c = CHR ''('' then
            (if starts_with ''?:'' cs then rx_loop (drop 2 cs) k (None, [], []) (fr # stack)
             else if starts_with ''?'' cs then PUnsupported
             else rx_loop cs (Suc k) (Some k, [], []) (fr # stack))
          else if c = CHR '')'' then
            (case stack of
               [] \<Rightarrow> PError
             | parent # stack' \<Rightarrow> rx_loop cs k (push_item (group_item fr) parent) stack')
          else if c = CHR ''|'' then rx_loop cs k (next_alternative fr) stack
          else if c = CHR ''*'' \<or> c = CHR ''+'' \<or> c = CHR ''?'' then
            (case quantify c fr of
               POk fr' \<Rightarrow> rx_loop cs k fr' stack
             | PError \<Rightarrow> PError
             | PUnsupported \<Rightarrow> PUnsupported)
          else if c = CHR ''['' then
            (case read_class cs of
               POk (x, r) \<Rightarrow> rx_loop r k (push_item x fr) stack
             | PError \<Rightarrow> PError
             | PUnsupported \<Rightarrow> PUnsupported)
          else if c = CHR 0x5C then
            (case cs of
               [] \<Rightarrow> PError
             | e # cs' \<Rightarrow>
                 (case escape_item e of
                    None \<Rightarrow> PUnsupported
                  | Some i \<Rightarrow> rx_loop cs' k (push_item (Sym False [i]) fr) stack))
          else if c = CHR ''.'' then rx_loop cs k (push_item (Sym True [CChar (CHR 0x0A)]) fr) stack
          else if c = CHR ''^'' \<or> c = CHR ''$'' \<or> c = CHR ''{'' then PUnsupported
          else rx_loop cs k (push_item (Sym False [CChar c]) fr) stack)"
  by pat_completeness auto
termination
  by (relation "measure (\<lambda>(s, k, fr, stack). length s)") (auto dest: read_class_shorter)

declare rx_loop.simps [simp del]

definition rx_parse :: "string \<Rightarrow> rx pres" where
  "rx_parse pattern = rx_loop pattern 1 (None, [], []) []"

text \<open>
  \<^verbatim>\<open>m = re.match(pattern, text)\<close> with \<^verbatim>\<open>m.group(1)\<close> and \<^verbatim>\<open>m.end()\<close>: the pattern is
  compiled first, then the text must be a string; the match is the first way to match
  a prefix of the text.
\<close>

definition py_re_match :: matcher where
  "py_re_match pattern text =
     (case rx_parse pattern of
        PError \<Rightarrow> Inl ReError
      | PUnsupported \<Rightarrow> Inl NotModelled
      | POk r \<Rightarrow>
          (case text of
             PStr s \<Rightarrow>
               (case ms r (s, \<lambda>n. None) of
                  [] \<Rightarrow> Inr None
                | (s', cp) # others \<Rightarrow>
                    if ngroups r < 1 then Inl IndexError
                    else Inr (Some (case cp 1 of None \<Rightarrow> PNone | Some g \<Rightarrow> PStr g,
                                    length s - length s')))
           | _ \<Rightarrow> Inl TypeError))"

section \<open>The JSON grammar of the file\<close>

text \<open>
  The text of \<^verbatim>\<open>json_description\<close>, line by line; the source writes it in a string
  that is not raw, so each pair of backslashes there is one backslash here. It begins
  and ends with a line feed.
\<close>

definition json_description :: string where
  "json_description =
     [CHR 0x0A] @
     ''object   => [{] members [}]'' @ [CHR 0x0A] @
     ''members  => pair [,] members | pair'' @ [CHR 0x0A] @
     ''pair     => string [:] value'' @ [CHR 0x0A] @
     ''value    => object | array | number | string'' @ [CHR 0x0A] @
     ''array    => [[] elements []]'' @ [CHR 0x0A] @
     ''elements => value [,] elements | value'' @ [CHR 0x0A] @
     ''number   => int frac exp | int frac | int exp | int'' @ [CHR 0x0A] @
     ''int      => [-+]?[0-9]+'' @ [CHR 0x0A] @
     ''frac     => [.][0-9]+'' @ [CHR 0x0A] @
     ''exp      => e[+-][0-9]+'' @ [CHR 0x0A] @
     ''string   => '' @ [CHR 0x22] @ ''([^'' @ [CHR 0x22, CHR 0x5C, CHR 0x5C] @ '']|''
        @ [CHR 0x5C] @ ''['' @ [CHR 0x22, CHR 0x5C] @ ''/bfnrtu])*'' @ [CHR 0x22] @ [CHR 0x0A]"

text \<open>\<^verbatim>\<open>JSON = grammar(json_description, whitespace='\s*')\<close>\<close>

definition JSON :: "error + gram" where
  "JSON = grammar json_description [CHR 0x5C, CHR ''s'', CHR ''*'']"

text \<open>
  \<^verbatim>\<open>def json_parse(text): return parse('value', text, JSON)\<close>, with the regular
  expressions of the fragment above and the bound on the depth of the recursion.
\<close>

definition json_parse :: "nat \<Rightarrow> pyval \<Rightarrow> error + result" where
  "json_parse depth text =
     (case JSON of
        Inl e \<Rightarrow> Inl e
      | Inr G \<Rightarrow> parse depth py_re_match (PStr ''value'') text G)"

section \<open>Notions used to state the interpreter's properties\<close>

text \<open>
  A callable is pure when it returns the cache it was given, with a result that does
  not depend on the cache.
\<close>

definition pure :: "callable \<Rightarrow> bool" where
  "pure f \<longleftrightarrow> (\<forall>args. \<exists>r. \<forall>c. f args c = (r, c))"

text \<open>
  What a call of the undecorated interpreter returns or raises, and what its
  \<^verbatim>\<open>parse_sequence\<close> does on a sequence of atoms.
\<close>

definition direct_value :: "nat \<Rightarrow> gram \<Rightarrow> matcher \<Rightarrow> string \<Rightarrow> pyval list \<Rightarrow> error + result" where
  "direct_value n G M tok args = fst (parse_atom_direct n G M tok args Map.empty)"

definition sequence_value ::
  "nat \<Rightarrow> gram \<Rightarrow> matcher \<Rightarrow> string \<Rightarrow> string list \<Rightarrow> pyval \<Rightarrow> error + result" where
  "sequence_value n G M tok sequence text =
     fst (parse_sequence (parse_atom_direct n G M tok) sequence text [] Map.empty)"

text \<open>
  A cache is valid when each of its entries is the result of the undecorated
  interpreter on the arguments of the entry, at some depth. The empty cache is valid,
  and the decorated interpreter keeps a cache valid.
\<close>

definition valid_cache :: "gram \<Rightarrow> matcher \<Rightarrow> string \<Rightarrow> cache \<Rightarrow> bool" where
  "valid_cache G M tok c \<longleftrightarrow>
     (\<forall>args r. c args = Some r \<longrightarrow> (\<exists>n. direct_value n G M tok args = Inr r))"

text \<open>
  \<open>atom_value\<close> is the value of \<^verbatim>\<open>parse_atom(atom, text)\<close>. \<open>threads V atoms t trees t'\<close>:
  calling \<open>V\<close> on the atoms in order, from the text \<open>t\<close> and each time on the remainder
  of the call before, yields the trees in order and ends with the remainder \<open>t'\<close>, and
  no remainder on the way is \<^verbatim>\<open>None\<close>. A sequence fails when its remainder is \<^verbatim>\<open>None\<close>.
\<close>

definition atom_value :: "nat \<Rightarrow> gram \<Rightarrow> matcher \<Rightarrow> string \<Rightarrow> string \<Rightarrow> pyval \<Rightarrow> error + result" where
  "atom_value n G M tok atom t = direct_value n G M tok [PStr atom, t]"

fun threads ::
  "(string \<Rightarrow> pyval \<Rightarrow> error + result) \<Rightarrow> string list \<Rightarrow> pyval \<Rightarrow> pyval list \<Rightarrow> pyval \<Rightarrow> bool" where
  "threads V [] t [] t' = (t' = t)"
| "threads V (a # as) t (tree # trees) t' =
     (case V a t of
        Inl e \<Rightarrow> False
      | Inr (tr, t1) \<Rightarrow> tr = tree \<and> t1 \<noteq> PNone \<and> threads V as t1 trees t')"
| "threads V [] t (tree # trees) t' = False"
| "threads V (a # as) t [] t' = False"

definition sequence_fails :: "nat \<Rightarrow> gram \<Rightarrow> matcher \<Rightarrow> string \<Rightarrow> string list \<Rightarrow> pyval \<Rightarrow> bool" where
  "sequence_fails n G M tok sequence t =
     (case sequence_value n G M tok sequence t of
        Inl e \<Rightarrow> False
      | Inr (tree, rem) \<Rightarrow> rem = PNone)"

text \<open>
  A result is \<open>fail_closed\<close> when its remainder is \<^verbatim>\<open>None\<close> only if it is \<^verbatim>\<open>Fail\<close>; the
  entries of a cache that is \<open>cache_ok\<close> are.
\<close>

definition fail_closed :: "result \<Rightarrow> bool" where
  "fail_closed r \<longleftrightarrow> (snd r = PNone \<longrightarrow> r = Fail)"

definition cache_ok :: "cache \<Rightarrow> bool" where
  "cache_ok c \<longleftrightarrow> (\<forall>args r. c args = Some r \<longrightarrow> fail_closed r)"

text \<open>
  The terminal branch as the specification words it: the pattern is the whitespace
  pattern followed by \<^verbatim>\<open>(\<close>, the atom and \<^verbatim>\<open>)\<close>; the result is group 1 and the text
  from the end of the match on, or \<^verbatim>\<open>(None, None)\<close> without a match.
\<close>

definition terminal_spec :: "matcher \<Rightarrow> string \<Rightarrow> string \<Rightarrow> string \<Rightarrow> error + result" where
  "terminal_spec M whitespace atom s =
     (case M (whitespace @ ''('' @ atom @ '')'') (PStr s) of
        Inl e \<Rightarrow> Inl e
      | Inr None \<Rightarrow> Inr Fail
      | Inr (Some (group1, end)) \<Rightarrow> Inr (group1, PStr (drop end s)))"

subsection \<open>Sample grammars\<close>

text \<open>
  The grammar \<^verbatim>\<open>S => a S | a\<close> and the one with the shorter alternative first,
  \<^verbatim>\<open>S => a | a S\<close>; a grammar whose whitespace pattern is \<^verbatim>\<open>%%\<close>; one
  whose whitespace pattern \<^verbatim>\<open>(\s)*\<close> has a group; and one with a rule whose only
  alternative is empty.
\<close>

definition sample_grammar :: gram where
  "sample_grammar =
     [[CHR '' ''] \<mapsto> Pat default_whitespace, ''S'' \<mapsto> Alts [[''a'', ''S''], [''a'']]]"

definition short_first_grammar :: gram where
  "short_first_grammar =
     [[CHR '' ''] \<mapsto> Pat default_whitespace, ''S'' \<mapsto> Alts [[''a''], [''a'', ''S'']]]"


definition group_grammar :: gram where
  "group_grammar = [[CHR '' ''] \<mapsto> Pat (''('' @ [CHR 0x5C] @ ''s)*'')]"

definition empty_rule_grammar :: gram where
  "empty_rule_grammar = [[CHR '' ''] \<mapsto> Pat default_whitespace, ''S'' \<mapsto> Alts [[]]]"

section \<open>Properties of the string primitives\<close>

lemma starts_with_iff: "starts_with p s \<longleftrightarrow> (\<exists>t. s = p @ t)"
  by (induction p s rule: starts_with.induct) auto

lemma find_sep_Some: "find_sep sep s = Some (u, v) \<Longrightarrow> s = u @ sep @ v"
proof (induction s arbitrary: u)
  case Nil
  then show ?case by (simp split: if_splits)
next
  case (Cons c cs)
  show ?case
  proof (cases "starts_with sep (c # cs)")
    case True
    then obtain t where t: "c # cs = sep @ t" by (auto simp: starts_with_iff)
    from True Cons.prems have "u = []" "v = drop (length sep) (c # cs)" by auto
    with t show ?thesis by simp
  next
    case False
    with Cons.prems obtain u' where u': "find_sep sep cs = Some (u', v)" "u = c # u'"
      by (auto split: option.splits)
    with Cons.IH show ?thesis by simp
  qed
qed

lemma contains_iff: "contains sep s \<longleftrightarrow> (\<exists>u v. s = u @ sep @ v)"
proof (induction s)
  case Nil
  then show ?case by auto
next
  case (Cons c cs)
  show ?case
  proof
    assume "contains sep (c # cs)"
    then consider "starts_with sep (c # cs)" | "contains sep cs" by auto
    then show "\<exists>u v. c # cs = u @ sep @ v"
    proof cases
      case 1
      then obtain t where "c # cs = sep @ t" by (auto simp: starts_with_iff)
      then have "c # cs = [] @ sep @ t" by simp
      then show ?thesis by blast
    next
      case 2
      with Cons.IH obtain u v where "cs = u @ sep @ v" by auto
      then have "c # cs = (c # u) @ sep @ v" by simp
      then show ?thesis by blast
    qed
  next
    assume "\<exists>u v. c # cs = u @ sep @ v"
    then obtain u v where uv: "c # cs = u @ sep @ v" by auto
    show "contains sep (c # cs)"
    proof (cases u)
      case Nil
      with uv have "starts_with sep (c # cs)" by (auto simp: starts_with_iff)
      then show ?thesis by simp
    next
      case (Cons a u')
      with uv have "cs = u' @ sep @ v" by simp
      with Cons.IH have "contains sep cs" by blast
      then show ?thesis by simp
    qed
  qed
qed

lemma find_sep_None: "find_sep sep s = None \<longleftrightarrow> \<not> contains sep s"
  by (induction s) (auto split: option.splits)

lemma contains_find: "contains sep s \<longleftrightarrow> (\<exists>u v. find_sep sep s = Some (u, v))"
  using find_sep_None [of sep s] by (cases "find_sep sep s") auto

lemma str_split_once:
  "sep \<noteq> [] \<Longrightarrow> str_split sep 1 s = (case find_sep sep s of None \<Rightarrow> [s] | Some (u, v) \<Rightarrow> [u, v])"
  by (simp add: str_split.simps split: option.splits)

lemma rstrip_prefix: "t = rev (dropWhile P (rev t)) @ rev (takeWhile P (rev t))"
  by (metis rev_append rev_rev_ident takeWhile_dropWhile_id)

lemma strip_sub: "\<exists>a b. s = a @ strip s @ b"
proof -
  let ?t = "dropWhile is_space s"
  have "s = takeWhile is_space s @ ?t" by simp
  moreover have "?t = strip s @ rev (takeWhile is_space (rev ?t))"
    unfolding strip_def by (rule rstrip_prefix)
  ultimately have "s = takeWhile is_space s @ strip s @ rev (takeWhile is_space (rev ?t))"
    by simp
  then show ?thesis by blast
qed

lemma all_dropWhile: "(\<forall>x\<in>set (dropWhile P s). P x) \<longleftrightarrow> (\<forall>x\<in>set s. P x)"
  by (induction s) auto

lemma strip_Nil_iff: "strip s = [] \<longleftrightarrow> (\<forall>c\<in>set s. is_space c)"
  by (simp add: strip_def all_dropWhile)

lemma strip_hd: "strip s \<noteq> [] \<Longrightarrow> \<not> is_space (hd (strip s))"
proof -
  assume ne: "strip s \<noteq> []"
  let ?t = "dropWhile is_space s"
  have t: "?t = strip s @ rev (takeWhile is_space (rev ?t))"
    unfolding strip_def by (rule rstrip_prefix)
  with ne have "?t \<noteq> []" by (metis Nil_is_append_conv)
  then have "\<not> is_space (hd ?t)" by (rule hd_dropWhile)
  moreover from t ne have "hd ?t = hd (strip s)" by (metis hd_append2)
  ultimately show ?thesis by simp
qed

lemma strip_last: "strip s \<noteq> [] \<Longrightarrow> \<not> is_space (last (strip s))"
proof -
  assume ne: "strip s \<noteq> []"
  let ?d = "dropWhile is_space (rev (dropWhile is_space s))"
  from ne have d: "?d \<noteq> []" by (simp add: strip_def)
  then have "\<not> is_space (hd ?d)" by (rule hd_dropWhile)
  moreover have "last (strip s) = hd ?d" using d by (simp add: strip_def last_rev)
  ultimately show ?thesis by simp
qed

lemma strip_id: "s \<noteq> [] \<Longrightarrow> \<not> is_space (hd s) \<Longrightarrow> \<not> is_space (last s) \<Longrightarrow> strip s = s"
proof -
  assume ne: "s \<noteq> []" and h: "\<not> is_space (hd s)" and l: "\<not> is_space (last s)"
  from ne h have 1: "dropWhile is_space s = s" by (cases s) auto
  from ne l have "dropWhile is_space (rev s) = rev s" by (cases "rev s") (auto simp: last_rev hd_rev)
  with 1 show ?thesis by (simp add: strip_def)
qed

lemma strip_strip: "strip (strip s) = strip s"
proof (cases "strip s = []")
  case True
  have "strip [] = []" by (simp add: strip_def)
  with True show ?thesis by simp
next
  case False
  then show ?thesis by (intro strip_id strip_hd strip_last)
qed

section \<open>Properties of the grammar compiler\<close>

lemma split_Some:
  "sep \<noteq> [] \<Longrightarrow>
   split t (Some sep) k = Inr (map strip (filter (\<lambda>t. t \<noteq> []) (str_split sep k (strip t))))"
  by (simp add: split_def py_split_def)

lemma split_None: "split a None (-1) = Inr (atoms_of a)"
  by (simp add: split_def py_split_def atoms_of_def)

lemma map_split_Inr: "map_split as = Inr (map atoms_of as)"
  by (induction as) (simp_all add: split_None)

lemma find_sep_ends:
  assumes f: "find_sep sep (strip line) = Some (u, v)"
    and sep: "sep \<noteq> []" "is_space (hd sep)" "is_space (last sep)"
  shows "u \<noteq> [] \<and> v \<noteq> [] \<and> strip u \<noteq> [] \<and> strip v \<noteq> []"
proof -
  from f have eq: "strip line = u @ sep @ v" by (rule find_sep_Some)
  with sep(1) have ne: "strip line \<noteq> []" by auto
  have h: "\<not> is_space (hd (strip line))" using ne by (rule strip_hd)
  have l: "\<not> is_space (last (strip line))" using ne by (rule strip_last)
  have u: "u \<noteq> []"
  proof
    assume "u = []"
    with eq sep(1) have "hd (strip line) = hd sep" by simp
    with h sep(2) show False by simp
  qed
  have v: "v \<noteq> []"
  proof
    assume "v = []"
    with eq sep(1) have "last (strip line) = last sep" by simp
    with l sep(3) show False by simp
  qed
  from u eq have "hd (strip line) = hd u" by simp
  with h u have "\<exists>c\<in>set u. \<not> is_space c" by (metis hd_in_set)
  then have su: "strip u \<noteq> []" by (simp add: strip_Nil_iff)
  from v eq have "last (strip line) = last v" by simp
  with l v have "\<exists>c\<in>set v. \<not> is_space c" by (metis last_in_set)
  then have sv: "strip v \<noteq> []" by (simp add: strip_Nil_iff)
  from u v su sv show ?thesis by simp
qed

lemma split_rule:
  "split line (Some '' => '') 1 =
     (case find_sep '' => '' (strip line) of
        None \<Rightarrow> Inr (if strip line = [] then [] else [strip line])
      | Some (u, v) \<Rightarrow> Inr [strip u, strip v])"
proof (cases "find_sep '' => '' (strip line)")
  case None
  then show ?thesis by (simp add: split_Some str_split_once strip_strip)
next
  case (Some p)
  obtain u v where p: "p = (u, v)" by (cases p)
  from Some p have "u \<noteq> [] \<and> v \<noteq> [] \<and> strip u \<noteq> [] \<and> strip v \<noteq> []"
    by (intro find_sep_ends [where sep = "'' => ''"]) (simp_all add: is_space_def)
  with Some p show ?thesis by (simp add: split_Some str_split_once)
qed

lemma split_rule_two:
  "split line (Some '' => '') 1 = Inr [lhs, rhs] \<longleftrightarrow>
     contains '' => '' (strip line) \<and> lhs = rule_lhs line \<and> rhs = rule_rhs line"
  by (auto simp: split_rule rule_lhs_def rule_rhs_def contains_find
      split: option.splits if_splits)

lemma grammar_loop_eq:
  "grammar_loop G lines =
     (if \<forall>l\<in>set lines. contains '' => '' (strip l) then Inr (fold add_rule lines G)
      else Inl ValueError)"
proof (induction lines arbitrary: G)
  case Nil
  then show ?case by simp
next
  case (Cons line lines)
  show ?case
  proof (cases "find_sep '' => '' (strip line)")
    case None
    then have "\<not> contains '' => '' (strip line)" by (simp add: find_sep_None)
    with None show ?thesis by (simp add: split_rule)
  next
    case (Some p)
    obtain u v where p: "p = (u, v)" by (cases p)
    from Some p have c: "contains '' => '' (strip line)" by (simp add: contains_find)
    from Some p have "grammar_loop G (line # lines) = grammar_loop (add_rule line G) lines"
      by (simp add: split_rule split_Some map_split_Inr add_rule_def rule_alts_def
          rule_lhs_def rule_rhs_def bar_groups_def strip_strip)
    with c Cons.IH show ?thesis by simp
  qed
qed

lemma description_lines_stripped:
  "line \<in> set (description_lines description) \<Longrightarrow> strip line = line"
  by (auto simp: description_lines_def split_Some strip_strip)

lemma grammar_eq:
  "grammar description whitespace =
     (if \<forall>l\<in>set (description_lines description). contains '' => '' l
      then Inr (fold add_rule (description_lines description) [[CHR '' ''] \<mapsto> Pat whitespace])
      else Inl ValueError)"
proof -
  have "grammar description whitespace =
          grammar_loop [[CHR '' ''] \<mapsto> Pat whitespace] (description_lines description)"
    by (simp add: grammar_def description_lines_def split_Some)
  also have "\<dots> = (if \<forall>l\<in>set (description_lines description). contains '' => '' (strip l)
      then Inr (fold add_rule (description_lines description) [[CHR '' ''] \<mapsto> Pat whitespace])
      else Inl ValueError)"
    by (rule grammar_loop_eq)
  finally show ?thesis by (simp add: description_lines_stripped cong: if_cong)
qed

lemma rule_lhs_props:
  assumes "contains '' => '' (strip line)"
  shows "rule_lhs line \<noteq> []" and "strip (rule_lhs line) = rule_lhs line"
proof -
  from assms obtain u v where f: "find_sep '' => '' (strip line) = Some (u, v)"
    by (auto simp: contains_find)
  then have "u \<noteq> [] \<and> v \<noteq> [] \<and> strip u \<noteq> [] \<and> strip v \<noteq> []"
    by (intro find_sep_ends [where sep = "'' => ''"]) (simp_all add: is_space_def)
  with f show "rule_lhs line \<noteq> []" by (simp add: rule_lhs_def)
  from f show "strip (rule_lhs line) = rule_lhs line" by (simp add: rule_lhs_def strip_strip)
qed

lemma strip_not_space: "strip s \<noteq> [CHR '' '']"
proof
  assume a: "strip s = [CHR '' '']"
  then have "strip s \<noteq> []" by simp
  then have "\<not> is_space (hd (strip s))" by (rule strip_hd)
  with a show False by (simp add: is_space_def)
qed

lemma rule_lhs_not_space: "rule_lhs line \<noteq> [CHR '' '']"
  by (auto simp: rule_lhs_def strip_not_space split: option.splits)

lemma fold_add_rule_other:
  "\<forall>l\<in>set lines. rule_lhs l \<noteq> k \<Longrightarrow> fold add_rule lines G k = G k"
  by (induction lines arbitrary: G) (auto simp: add_rule_def)

lemma fold_add_rule_last:
  assumes "\<forall>l\<in>set post. rule_lhs l \<noteq> rule_lhs line"
  shows "fold add_rule (pre @ line # post) G (rule_lhs line) = Some (Alts (rule_alts line))"
proof -
  have "fold add_rule (pre @ line # post) G (rule_lhs line)
          = fold add_rule post (add_rule line (fold add_rule pre G)) (rule_lhs line)"
    by simp
  also have "\<dots> = add_rule line (fold add_rule pre G) (rule_lhs line)"
    using assms by (rule fold_add_rule_other)
  finally show ?thesis by (simp add: add_rule_def)
qed

lemma fold_add_rule_dom:
  "dom (fold add_rule lines G) = dom G \<union> rule_lhs ` set lines"
  by (induction lines arbitrary: G) (auto simp: add_rule_def)

lemma rhs_has_alternative:
  assumes "contains '' => '' (strip line)"
  shows "split (rule_rhs line) (Some '' | '') (-1) \<noteq> Inr []"
proof -
  from assms obtain u v where f: "find_sep '' => '' (strip line) = Some (u, v)"
    by (auto simp: contains_find)
  then have "u \<noteq> [] \<and> v \<noteq> [] \<and> strip u \<noteq> [] \<and> strip v \<noteq> []"
    by (intro find_sep_ends [where sep = "'' => ''"]) (simp_all add: is_space_def)
  with f have r: "rule_rhs line \<noteq> []" "strip (rule_rhs line) = rule_rhs line"
    by (simp_all add: rule_rhs_def strip_strip)
  let ?r = "rule_rhs line"
  have "\<exists>p ps. str_split '' | '' (-1) ?r = p # ps \<and> p \<noteq> []"
  proof (cases "find_sep '' | '' ?r")
    case None
    with r(1) show ?thesis by (simp add: str_split.simps)
  next
    case (Some q)
    obtain a b where q: "q = (a, b)" by (cases q)
    from Some q r(2) have "find_sep '' | '' (strip ?r) = Some (a, b)" by simp
    then have "a \<noteq> [] \<and> b \<noteq> [] \<and> strip a \<noteq> [] \<and> strip b \<noteq> []"
      by (intro find_sep_ends [where sep = "'' | ''"]) (simp_all add: is_space_def)
    with Some q show ?thesis by (simp add: str_split.simps [of _ "-1"])
  qed
  then show ?thesis by (auto simp: split_Some r(2))
qed

lemma no_alternatives_never: "\<not> no_alternatives line"
  using rhs_has_alternative [of line]
  by (auto simp: no_alternatives_def split_rule_two split: sum.splits list.splits)

text \<open>
  Claim C6. A description with a line that lacks the rule separator \<^verbatim>\<open>' => '\<close>, or whose
  right-hand side yields no alternative, does not compile: \<^verbatim>\<open>grammar\<close> raises, and no
  grammar is returned. The exception is the \<^verbatim>\<open>ValueError\<close> of the failed unpacking
  \<^verbatim>\<open>lhs, rhs = split(line, ' => ', 1)\<close>, which the specification calls
  MalformedGrammarLine. The lines are those of the loop: the non-empty pieces between
  line feeds, stripped. (By \<open>no_alternatives_never\<close> no line has a right-hand side without
  alternatives, so only the missing separator makes the compilation fail.)
\<close>

theorem malformed_line_aborts:
  assumes "line \<in> set (description_lines description)"
    and "\<not> contains '' => '' line \<or> no_alternatives line"
  shows "grammar description whitespace = Inl ValueError"
proof -
  from assms(2) have "\<not> contains '' => '' line" by (simp add: no_alternatives_never)
  with assms(1) show ?thesis by (auto simp: grammar_eq)
qed

theorem malformed_line_aborts_witness:
  "''b'' \<in> set (description_lines (''a => c'' @ [CHR 0x0A] @ ''b''))
   \<and> \<not> contains '' => '' ''b''
   \<and> grammar (''a => c'' @ [CHR 0x0A] @ ''b'') ''w'' = Inl ValueError"
proof -
  have 1: "''b'' \<in> set (description_lines (''a => c'' @ [CHR 0x0A] @ ''b''))" by code_simp
  have 2: "\<not> contains '' => '' ''b''" by simp
  then have 3: "\<not> contains '' => '' ''b'' \<or> no_alternatives ''b''" by simp
  from 1 2 malformed_line_aborts [OF 1 3, of "''w''"] show ?thesis by blast
qed

text \<open>
  Claim C10. A compiled grammar maps the reserved key \<^verbatim>\<open>' '\<close> to the whitespace pattern
  the caller gave (to \<^verbatim>\<open>\s*\<close> when the caller gave none), and no line overwrites the
  entry: a left-hand side that the line splitter produces is non-empty and stripped, so
  it is never the single space.
\<close>

theorem whitespace_entry_kept:
  "(grammar description whitespace = Inr G \<longrightarrow> G [CHR '' ''] = Some (Pat whitespace))
   \<and> (grammar1 description = Inr G' \<longrightarrow> G' [CHR '' ''] = Some (Pat default_whitespace))
   \<and> (split line (Some '' => '') 1 = Inr [lhs, rhs]
        \<longrightarrow> lhs \<noteq> [] \<and> strip lhs = lhs \<and> lhs \<noteq> [CHR '' ''])"
proof (intro conjI impI)
  have keep: "fold add_rule (description_lines description) [[CHR '' ''] \<mapsto> Pat w] [CHR '' '']
    = [[CHR '' ''] \<mapsto> Pat w] [CHR '' '']" for w
    by (rule fold_add_rule_other) (simp add: rule_lhs_not_space)
  {
    assume "grammar description whitespace = Inr G"
    then have "G = fold add_rule (description_lines description) [[CHR '' ''] \<mapsto> Pat whitespace]"
      by (simp add: grammar_eq split: if_splits)
    with keep show "G [CHR '' ''] = Some (Pat whitespace)" by simp
  next
    assume "grammar1 description = Inr G'"
    then have "G' = fold add_rule (description_lines description) [[CHR '' ''] \<mapsto> Pat default_whitespace]"
      by (simp add: grammar1_def grammar_eq split: if_splits)
    with keep show "G' [CHR '' ''] = Some (Pat default_whitespace)" by simp
  }
next
  assume "split line (Some '' => '') 1 = Inr [lhs, rhs]"
  then have c: "contains '' => '' (strip line)" and l: "lhs = rule_lhs line"
    by (simp_all add: split_rule_two)
  from c l show "lhs \<noteq> []" by (simp add: rule_lhs_props)
  from c l show "strip lhs = lhs" by (simp add: rule_lhs_props)
  from l show "lhs \<noteq> [CHR '' '']" by (simp add: rule_lhs_not_space)
qed

theorem whitespace_entry_kept_witness:
  "grammar ''a => b'' ''w'' = Inr (fold add_rule [''a => b''] [[CHR '' ''] \<mapsto> Pat ''w''])
   \<and> fold add_rule [''a => b''] [[CHR '' ''] \<mapsto> Pat ''w''] [CHR '' ''] = Some (Pat ''w'')
   \<and> grammar1 ''a => b'' = Inr (fold add_rule [''a => b''] [[CHR '' ''] \<mapsto> Pat default_whitespace])
   \<and> fold add_rule [''a => b''] [[CHR '' ''] \<mapsto> Pat default_whitespace] [CHR '' '']
       = Some (Pat default_whitespace)
   \<and> split ''a => b'' (Some '' => '') 1 = Inr [''a'', ''b'']
   \<and> ''a'' \<noteq> [] \<and> strip ''a'' = ''a'' \<and> ''a'' \<noteq> [CHR '' '']"
proof -
  have l: "description_lines ''a => b'' = [''a => b'']" by code_simp
  have 1: "grammar ''a => b'' w = Inr (fold add_rule [''a => b''] [[CHR '' ''] \<mapsto> Pat w])" for w
    by (simp add: grammar_eq l)
  then have 2: "grammar1 ''a => b''
      = Inr (fold add_rule [''a => b''] [[CHR '' ''] \<mapsto> Pat default_whitespace])"
    by (simp add: grammar1_def)
  have 3: "split ''a => b'' (Some '' => '') 1 = Inr [''a'', ''b'']" by code_simp
  from whitespace_entry_kept
    [of "''a => b''" "''w''" "fold add_rule [''a => b''] [[CHR '' ''] \<mapsto> Pat ''w'']"
        "fold add_rule [''a => b''] [[CHR '' ''] \<mapsto> Pat default_whitespace]"
        "''a => b''" "''a''" "''b''"] 1 2 3
  show ?thesis by blast
qed

lemma find_sep_first:
  "find_sep sep s = Some (u, v) \<Longrightarrow> sep \<noteq> [] \<Longrightarrow> \<not> contains sep (u @ butlast sep)"
proof (induction s arbitrary: u)
  case Nil
  then show ?case by simp
next
  case (Cons c cs)
  show ?case
  proof (cases "starts_with sep (c # cs)")
    case True
    with Cons.prems have "u = []" by simp
    moreover have "\<not> contains sep (butlast sep)"
    proof
      assume "contains sep (butlast sep)"
      then obtain a b where "butlast sep = a @ sep @ b" by (auto simp: contains_iff)
      then have "length (butlast sep) = length a + length sep + length b" by simp
      moreover have "length (butlast sep) < length sep" using Cons.prems(2) by simp
      ultimately show False by simp
    qed
    ultimately show ?thesis by simp
  next
    case False
    with Cons.prems obtain u' where u': "find_sep sep cs = Some (u', v)" "u = c # u'"
      by (auto split: option.splits)
    from u'(1) Cons.prems(2) have ih: "\<not> contains sep (u' @ butlast sep)" by (rule Cons.IH)
    from u'(1) have cs: "cs = u' @ sep @ v" by (rule find_sep_Some)
    have "\<not> starts_with sep (c # u' @ butlast sep)"
    proof
      assume "starts_with sep (c # u' @ butlast sep)"
      then obtain t where t: "c # u' @ butlast sep = sep @ t" by (auto simp: starts_with_iff)
      from Cons.prems(2) have "sep = butlast sep @ [last sep]" by simp
      then have "c # cs = (c # u' @ butlast sep) @ [last sep] @ v" using cs by (metis append.assoc append_Cons)
      with t have "c # cs = sep @ (t @ [last sep] @ v)" by simp
      then have "starts_with sep (c # cs)" unfolding starts_with_iff by blast
      with False show False by simp
    qed
    with ih u'(2) show ?thesis by simp
  qed
qed

text \<open>
  Claim C7. For a well-formed description the compilation succeeds, every left-hand
  side of the description is a key of the grammar, and for the last line that defines a
  symbol (no later line has the same left-hand side: a later line overwrites an earlier
  one) the grammar stores as many alternatives as the right-hand side of that line has
  groups separated by \<^verbatim>\<open>' | '\<close>. The two sides of a line are the stripped texts before
  and after the leftmost \<^verbatim>\<open>' => '\<close>: no occurrence of the separator starts earlier, and
  a later one stays in the right-hand side.
\<close>

theorem compile_round_trip:
  assumes wf: "well_formed description"
    and lines: "description_lines description = pre @ line # post"
    and last: "\<forall>l\<in>set post. rule_lhs l \<noteq> rule_lhs line"
  shows "\<exists>G alts u v.
           grammar description whitespace = Inr G
         \<and> (\<forall>l\<in>set (description_lines description). rule_lhs l \<in> dom G)
         \<and> line = u @ '' => '' @ v \<and> \<not> contains '' => '' (u @ '' =>'')
         \<and> rule_lhs line = strip u \<and> rule_rhs line = strip v
         \<and> G (rule_lhs line) = Some (Alts alts)
         \<and> length alts = length (bar_groups (rule_rhs line))"
proof -
  let ?G = "fold add_rule (description_lines description) [[CHR '' ''] \<mapsto> Pat whitespace]"
  from wf have g: "grammar description whitespace = Inr ?G"
    by (simp add: grammar_eq well_formed_def)
  have d: "\<forall>l\<in>set (description_lines description). rule_lhs l \<in> dom ?G"
    by (simp add: fold_add_rule_dom)
  from lines have mem: "line \<in> set (description_lines description)" by simp
  then have st: "strip line = line" by (rule description_lines_stripped)
  from wf mem have c: "contains '' => '' line"
    and ne: "\<forall>g\<in>set (bar_groups (rule_rhs line)). g \<noteq> []"
    by (simp_all add: well_formed_def)
  from c obtain u v where f: "find_sep '' => '' line = Some (u, v)"
    by (auto simp: contains_find)
  then have uv: "line = u @ '' => '' @ v" by (rule find_sep_Some)
  from f have "\<not> contains '' => '' (u @ butlast '' => '')" by (rule find_sep_first) simp
  then have first: "\<not> contains '' => '' (u @ '' =>'')" by simp
  from f st have lr: "rule_lhs line = strip u" "rule_rhs line = strip v"
    by (simp_all add: rule_lhs_def rule_rhs_def)
  from last have look: "?G (rule_lhs line) = Some (Alts (rule_alts line))"
    unfolding lines by (rule fold_add_rule_last)
  from ne have "filter (\<lambda>t. t \<noteq> []) (bar_groups (rule_rhs line)) = bar_groups (rule_rhs line)"
    by (simp add: filter_id_conv)
  then have len: "length (rule_alts line) = length (bar_groups (rule_rhs line))"
    by (simp add: rule_alts_def)
  from g d uv first lr look len show ?thesis by blast
qed

theorem compile_round_trip_witness:
  "well_formed sample_description
   \<and> description_lines sample_description = [''x => a b | c'', ''y => x => q''] @ ''x => d | e f | g'' # []
   \<and> (\<exists>G alts u v.
           grammar sample_description ''w'' = Inr G
         \<and> (\<forall>l\<in>set (description_lines sample_description). rule_lhs l \<in> dom G)
         \<and> ''x => d | e f | g'' = u @ '' => '' @ v \<and> \<not> contains '' => '' (u @ '' =>'')
         \<and> rule_lhs ''x => d | e f | g'' = strip u \<and> rule_rhs ''x => d | e f | g'' = strip v
         \<and> G (rule_lhs ''x => d | e f | g'') = Some (Alts alts)
         \<and> length alts = length (bar_groups (rule_rhs ''x => d | e f | g'')))"
proof -
  have 1: "well_formed sample_description" by code_simp
  have 2: "description_lines sample_description = [''x => a b | c'', ''y => x => q''] @ ''x => d | e f | g'' # []"
    by code_simp
  have 3: "\<forall>l\<in>set []. rule_lhs l \<noteq> rule_lhs ''x => d | e f | g''" by simp
  from compile_round_trip [OF 1 2 3, of "''w''"] 1 2 show ?thesis by blast
qed

section \<open>The memoization is transparent\<close>

lemma pureD: "pure f \<Longrightarrow> \<exists>r. \<forall>c. f args c = (r, c)"
  by (simp add: pure_def)

lemma parse_sequence_pure:
  "pure f \<Longrightarrow> \<exists>r. \<forall>c. parse_sequence f sequence t result c = (r, c)"
proof (induction sequence arbitrary: t result)
  case Nil
  then show ?case by simp
next
  case (Cons atom sequence)
  from pureD [OF Cons.prems] obtain x where fc: "\<And>c. f [PStr atom, t] c = (x, c)" by blast
  show ?case
  proof (cases x)
    case (Inl e)
    with fc show ?thesis by simp
  next
    case (Inr r)
    obtain tree t' where r: "r = (tree, t')" by (cases r)
    from Cons.IH [OF Cons.prems] obtain y
      where "\<And>c. parse_sequence f sequence t' (result @ [tree]) c = (y, c)" by blast
    with fc Inr r show ?thesis by (cases "t' = PNone") simp_all
  qed
qed

lemma parse_alternatives_pure:
  "pure f \<Longrightarrow> \<exists>r. \<forall>c. parse_alternatives f atom alternatives t c = (r, c)"
proof (induction alternatives)
  case Nil
  then show ?case by simp
next
  case (Cons alternative alternatives)
  from parse_sequence_pure [OF Cons.prems] obtain x
    where sc: "\<And>c. parse_sequence f alternative t [] c = (x, c)" by blast
  from Cons.IH [OF Cons.prems] obtain y
    where ac: "\<And>c. parse_alternatives f atom alternatives t c = (y, c)" by blast
  show ?case
  proof (cases x)
    case (Inl e)
    with sc show ?thesis by simp
  next
    case (Inr r)
    obtain tree rem where r: "r = (tree, rem)" by (cases r)
    with sc ac Inr show ?thesis
      by (cases "rem = PNone"; cases "list_plus [atom] tree") simp_all
  qed
qed

lemma parse_atom_body_pure:
  assumes "pure f"
  shows "pure (parse_atom_body G M tok f)"
  unfolding pure_def
proof
  fix args
  show "\<exists>r. \<forall>c. parse_atom_body G M tok f args c = (r, c)"
  proof (cases "\<exists>atom t. args = [atom, t]")
    case False
    then have "parse_atom_body G M tok f args c = (Inl TypeError, c)" for c
      by (auto simp: parse_atom_body_def split: list.splits)
    then show ?thesis by blast
  next
    case True
    then obtain atom t where args: "args = [atom, t]" by blast
    show ?thesis
    proof (cases "in_grammar G atom")
      case (Inl e)
      with args show ?thesis by (simp add: parse_atom_body_def)
    next
      case (Inr g)
      show ?thesis
      proof (cases g)
        case (Some alts)
        from parse_alternatives_pure [OF assms] obtain y
          where "\<And>c. parse_alternatives f atom (alternatives_of alts) t c = (y, c)" by blast
        with args Inr Some show ?thesis by (simp add: parse_atom_body_def)
      next
        case None
        with args Inr show ?thesis by (simp add: parse_atom_body_def)
      qed
    qed
  qed
qed

lemma parse_atom_direct_pure: "pure (parse_atom_direct n G M tok)"
proof (induction n)
  case 0
  show ?case by (simp add: pure_def)
next
  case (Suc n)
  then show ?case by (simp add: parse_atom_body_pure)
qed

lemma parse_atom_direct_eq:
  "parse_atom_direct n G M tok args c = (direct_value n G M tok args, c)"
proof -
  from pureD [OF parse_atom_direct_pure] obtain r
    where r: "\<And>c. parse_atom_direct n G M tok args c = (r, c)" by blast
  then show ?thesis by (simp add: direct_value_def)
qed

lemma seq_agree:
  fixes f g :: callable
  assumes f: "\<And>args c. f args c = (F args, c)"
    and g: "\<And>atom t c. H t \<Longrightarrow> V c \<Longrightarrow> F [PStr atom, t] \<noteq> Inl RecursionError \<Longrightarrow>
              fst (g [PStr atom, t] c) = F [PStr atom, t] \<and> V (snd (g [PStr atom, t] c))"
    and H: "\<And>atom t tree rem. H t \<Longrightarrow> F [PStr atom, t] = Inr (tree, rem) \<Longrightarrow> H rem"
  shows "H t \<Longrightarrow> V c \<Longrightarrow> fst (parse_sequence f sequence t result c0) \<noteq> Inl RecursionError \<Longrightarrow>
         fst (parse_sequence g sequence t result c) = fst (parse_sequence f sequence t result c0)
         \<and> V (snd (parse_sequence g sequence t result c))"
proof (induction sequence arbitrary: t result c)
  case Nil
  then show ?case by simp
next
  case (Cons atom sequence)
  let ?x = "F [PStr atom, t]"
  have fa: "f [PStr atom, t] c = (?x, c)" for c by (rule f)
  from Cons.prems(3) have nr: "?x \<noteq> Inl RecursionError"
    by (auto simp: fa split: sum.splits)
  from g [OF Cons.prems(1,2) nr] obtain c' where gc: "g [PStr atom, t] c = (?x, c')" and V: "V c'"
    by (cases "g [PStr atom, t] c") auto
  show ?case
  proof (cases ?x)
    case (Inl e)
    with gc V show ?thesis by (simp add: fa)
  next
    case (Inr r)
    obtain tree t' where r: "r = (tree, t')" by (cases r)
    show ?thesis
    proof (cases "t' = PNone")
      case True
      with Inr r gc V show ?thesis by (simp add: fa)
    next
      case False
      from Inr r Cons.prems(1) have Ht: "H t'" by (auto intro: H)
      from Inr r False Cons.prems(3)
      have "fst (parse_sequence f sequence t' (result @ [tree]) c0) \<noteq> Inl RecursionError"
        by (simp add: fa)
      from Cons.IH [OF Ht V this] Inr r False gc show ?thesis by (simp add: fa)
    qed
  qed
qed

lemma alts_agree:
  fixes f g :: callable
  assumes f: "\<And>args c. f args c = (F args, c)"
    and g: "\<And>atom t c. H t \<Longrightarrow> V c \<Longrightarrow> F [PStr atom, t] \<noteq> Inl RecursionError \<Longrightarrow>
              fst (g [PStr atom, t] c) = F [PStr atom, t] \<and> V (snd (g [PStr atom, t] c))"
    and H: "\<And>atom t tree rem. H t \<Longrightarrow> F [PStr atom, t] = Inr (tree, rem) \<Longrightarrow> H rem"
    and t: "H t"
  shows "V c \<Longrightarrow> fst (parse_alternatives f a alternatives t c0) \<noteq> Inl RecursionError \<Longrightarrow>
         fst (parse_alternatives g a alternatives t c) = fst (parse_alternatives f a alternatives t c0)
         \<and> V (snd (parse_alternatives g a alternatives t c))"
proof (induction alternatives arbitrary: c)
  case Nil
  then show ?case by simp
next
  case (Cons alternative alternatives)
  have pf: "pure f" using f by (auto simp: pure_def)
  from parse_sequence_pure [OF pf] obtain x
    where sf: "\<And>c. parse_sequence f alternative t [] c = (x, c)" by blast
  from Cons.prems(2) have nr: "fst (parse_sequence f alternative t [] c0) \<noteq> Inl RecursionError"
    by (auto simp: sf split: sum.splits)
  from seq_agree [of f F H V g, OF f g H t Cons.prems(1) nr]
  obtain c' where sg: "parse_sequence g alternative t [] c = (x, c')" and V: "V c'"
    by (cases "parse_sequence g alternative t [] c") (auto simp: sf)
  show ?case
  proof (cases x)
    case (Inl e)
    with sf sg V show ?thesis by simp
  next
    case (Inr r)
    obtain tree rem where r: "r = (tree, rem)" by (cases r)
    show ?thesis
    proof (cases "rem = PNone")
      case False
      with Inr r sf sg V show ?thesis by (cases "list_plus [a] tree") simp_all
    next
      case True
      with Inr r sf Cons.prems(2)
      have "fst (parse_alternatives f a alternatives t c0) \<noteq> Inl RecursionError" by simp
      from Cons.IH [OF V this] Inr r True sf sg show ?thesis by simp
    qed
  qed
qed

lemma body_agree:
  fixes f g :: callable
  assumes f: "\<And>args c. f args c = (F args, c)"
    and g: "\<And>atom t c. H t \<Longrightarrow> V c \<Longrightarrow> F [PStr atom, t] \<noteq> Inl RecursionError \<Longrightarrow>
              fst (g [PStr atom, t] c) = F [PStr atom, t] \<and> V (snd (g [PStr atom, t] c))"
    and H: "\<And>atom t tree rem. H t \<Longrightarrow> F [PStr atom, t] = Inr (tree, rem) \<Longrightarrow> H rem"
    and args: "\<And>atom t. args = [atom, t] \<Longrightarrow> H t"
    and V: "V c"
    and nr: "fst (parse_atom_body G M tok f args c0) \<noteq> Inl RecursionError"
  shows "fst (parse_atom_body G M tok g args c) = fst (parse_atom_body G M tok f args c0)
         \<and> V (snd (parse_atom_body G M tok g args c))"
proof (cases "\<exists>atom t. args = [atom, t]")
  case False
  then have "parse_atom_body G M tok h args c = (Inl TypeError, c)" for h c
    by (auto simp: parse_atom_body_def split: list.splits)
  with V show ?thesis by simp
next
  case True
  then obtain atom t where a: "args = [atom, t]" by blast
  then have t: "H t" by (rule args)
  show ?thesis
  proof (cases "in_grammar G atom")
    case (Inl e)
    with a V show ?thesis by (simp add: parse_atom_body_def)
  next
    case (Inr k)
    show ?thesis
    proof (cases k)
      case None
      with a Inr V show ?thesis by (simp add: parse_atom_body_def)
    next
      case (Some alts)
      with a Inr nr
      have "fst (parse_alternatives f atom (alternatives_of alts) t c0) \<noteq> Inl RecursionError"
        by (simp add: parse_atom_body_def)
      from alts_agree [of f F H V g, OF f g H t V this] a Inr Some
      show ?thesis by (simp add: parse_atom_body_def)
    qed
  qed
qed

lemma direct_mono_Suc:
  "direct_value n G M tok args \<noteq> Inl RecursionError \<Longrightarrow>
   direct_value (Suc n) G M tok args = direct_value n G M tok args"
proof (induction n arbitrary: args)
  case 0
  then show ?case by (simp add: direct_value_def)
next
  case (Suc n)
  let ?f = "parse_atom_direct n G M tok" and ?g = "parse_atom_direct (Suc n) G M tok"
  have f: "\<And>args c. ?f args c = (direct_value n G M tok args, c)"
    by (rule parse_atom_direct_eq)
  have g: "\<And>atom t c. True \<Longrightarrow> True \<Longrightarrow> direct_value n G M tok [PStr atom, t] \<noteq> Inl RecursionError \<Longrightarrow>
      fst (?g [PStr atom, t] c) = direct_value n G M tok [PStr atom, t] \<and> True"
  proof -
    fix atom t c
    assume "direct_value n G M tok [PStr atom, t] \<noteq> Inl RecursionError"
    then have "direct_value (Suc n) G M tok [PStr atom, t] = direct_value n G M tok [PStr atom, t]"
      by (rule Suc.IH)
    moreover have "fst (?g [PStr atom, t] c) = direct_value (Suc n) G M tok [PStr atom, t]"
      by (simp only: parse_atom_direct_eq fst_conv)
    ultimately show "fst (?g [PStr atom, t] c) = direct_value n G M tok [PStr atom, t] \<and> True"
      by simp
  qed
  from Suc.prems have nr: "fst (parse_atom_body G M tok ?f args Map.empty) \<noteq> Inl RecursionError"
    by (simp add: direct_value_def)
  have "fst (parse_atom_body G M tok ?g args Map.empty) = fst (parse_atom_body G M tok ?f args Map.empty)
        \<and> True"
    by (rule body_agree [of ?f "direct_value n G M tok" "\<lambda>_. True" "\<lambda>_. True" ?g, OF f g _ _ _ nr])
       simp_all
  then show ?case by (simp add: direct_value_def)
qed

lemma direct_mono:
  "n \<le> m \<Longrightarrow> direct_value n G M tok args \<noteq> Inl RecursionError \<Longrightarrow>
   direct_value m G M tok args = direct_value n G M tok args"
proof (induction m)
  case 0
  then show ?case by simp
next
  case (Suc m)
  show ?case
  proof (cases "n = Suc m")
    case True
    then show ?thesis by simp
  next
    case False
    with Suc.prems have "n \<le> m" by simp
    with Suc have eq: "direct_value m G M tok args = direct_value n G M tok args" by simp
    with Suc.prems(2) have "direct_value (Suc m) G M tok args = direct_value m G M tok args"
      by (intro direct_mono_Suc) simp
    with eq show ?thesis by simp
  qed
qed

lemma direct_unique:
  assumes "direct_value n G M tok args = Inr r" and "direct_value m G M tok args \<noteq> Inl RecursionError"
  shows "direct_value m G M tok args = Inr r"
proof (cases "n \<le> m")
  case True
  with assms(1) show ?thesis by (simp add: direct_mono)
next
  case False
  then have "m \<le> n" by simp
  from direct_mono [OF this assms(2)] assms(1) show ?thesis by simp
qed

lemma seq_closed:
  fixes f :: callable
  assumes f: "\<And>args c. f args c = (F args, c)"
    and H: "\<And>atom t tree rem. H t \<Longrightarrow> F [PStr atom, t] = Inr (tree, rem) \<Longrightarrow> H rem"
    and N: "H PNone"
  shows "H t \<Longrightarrow> fst (parse_sequence f sequence t result c) = Inr (tree, rem) \<Longrightarrow> H rem"
proof (induction sequence arbitrary: t result)
  case Nil
  then show ?case by simp
next
  case (Cons atom sequence)
  let ?x = "F [PStr atom, t]"
  have fa: "f [PStr atom, t] c = (?x, c)" for c by (rule f)
  show ?case
  proof (cases ?x)
    case (Inl e)
    with Cons.prems(2) show ?thesis by (simp add: fa)
  next
    case (Inr r)
    obtain tr t' where r: "r = (tr, t')" by (cases r)
    show ?thesis
    proof (cases "t' = PNone")
      case True
      with Inr r Cons.prems(2) N show ?thesis by (simp add: fa Fail_def)
    next
      case False
      from Inr r Cons.prems(1) have "H t'" by (auto intro: H)
      moreover from Inr r False Cons.prems(2)
      have "fst (parse_sequence f sequence t' (result @ [tr]) c) = Inr (tree, rem)"
        by (simp add: fa)
      ultimately show ?thesis by (rule Cons.IH)
    qed
  qed
qed

lemma alts_closed:
  fixes f :: callable
  assumes f: "\<And>args c. f args c = (F args, c)"
    and H: "\<And>atom t tree rem. H t \<Longrightarrow> F [PStr atom, t] = Inr (tree, rem) \<Longrightarrow> H rem"
    and N: "H PNone"
    and t: "H t"
  shows "fst (parse_alternatives f a alternatives t c) = Inr (tree, rem) \<Longrightarrow> H rem"
proof (induction alternatives)
  case Nil
  with N show ?case by (simp add: Fail_def)
next
  case (Cons alternative alternatives)
  have pf: "pure f" using f by (auto simp: pure_def)
  from parse_sequence_pure [OF pf] obtain x
    where sf: "\<And>c. parse_sequence f alternative t [] c = (x, c)" by blast
  show ?case
  proof (cases x)
    case (Inl e)
    with sf Cons.prems show ?thesis by simp
  next
    case (Inr r)
    obtain tr rm where r: "r = (tr, rm)" by (cases r)
    show ?thesis
    proof (cases "rm = PNone")
      case True
      with Inr r sf Cons show ?thesis by simp
    next
      case False
      with Inr r sf Cons.prems have "rem = rm"
        by (cases "list_plus [a] tr") simp_all
      moreover from sf Inr r have "fst (parse_sequence f alternative t [] c) = Inr (tr, rm)"
        by simp
      then have "H rm"
      proof (rule seq_closed [where f = f and F = F and H = H, rotated 4])
        show "\<And>args c. f args c = (F args, c)" by (rule f)
        show "\<And>atom t tree rem. H t \<Longrightarrow> F [PStr atom, t] = Inr (tree, rem) \<Longrightarrow> H rem"
          by (rule H)
        show "H PNone" by (rule N)
        show "H t" by (rule t)
      qed
      ultimately show ?thesis by simp
    qed
  qed
qed

lemma slice_from_hashable: "hashable t \<Longrightarrow> slice_from t n = Inr rem \<Longrightarrow> hashable rem"
  by (cases t) (auto simp: list_all_iff dest!: in_set_dropD)

lemma direct_hashable:
  "hashable t \<Longrightarrow> direct_value n G M tok [atom, t] = Inr (tree, rem) \<Longrightarrow> hashable rem"
proof (induction n arbitrary: atom t tree rem)
  case 0
  then show ?case by (simp add: direct_value_def)
next
  case (Suc n)
  let ?f = "parse_atom_direct n G M tok"
  have f: "\<And>args c. ?f args c = (direct_value n G M tok args, c)"
    by (rule parse_atom_direct_eq)
  have H: "\<And>atom t tree rem. hashable t \<Longrightarrow> direct_value n G M tok [PStr atom, t] = Inr (tree, rem)
      \<Longrightarrow> hashable rem" by (rule Suc.IH)
  from Suc.prems(2)
  have b: "fst (parse_atom_body G M tok ?f [atom, t] Map.empty) = Inr (tree, rem)"
    by (simp add: direct_value_def)
  show ?case
  proof (cases "in_grammar G atom")
    case (Inl e)
    with b show ?thesis by (simp add: parse_atom_body_def)
  next
    case (Inr k)
    show ?thesis
    proof (cases k)
      case (Some alts)
      with Inr b
      have "fst (parse_alternatives ?f atom (alternatives_of alts) t Map.empty) = Inr (tree, rem)"
        by (simp add: parse_atom_body_def)
      then show ?thesis
      proof (rule alts_closed [where f = ?f and F = "direct_value n G M tok" and H = hashable,
            rotated 4])
        show "\<And>args c. ?f args c = (direct_value n G M tok args, c)" by (rule f)
        show "\<And>atom t tree rem. hashable t \<Longrightarrow>
            direct_value n G M tok [PStr atom, t] = Inr (tree, rem) \<Longrightarrow> hashable rem"
          by (rule H)
        show "hashable PNone" by simp
        show "hashable t" by (rule Suc.prems(1))
      qed
    next
      case None
      with Inr b have "match_terminal M tok atom t = Inr (tree, rem)"
        by (simp add: parse_atom_body_def)
      with Suc.prems(1) show ?thesis
        by (auto simp: match_terminal_def Fail_def split: sum.splits option.splits
            dest: slice_from_hashable)
    qed
  qed
qed

lemma memo_transparent:
  "valid_cache G M tok c \<Longrightarrow> hashable (PTuple args) \<Longrightarrow>
   direct_value n G M tok args \<noteq> Inl RecursionError \<Longrightarrow>
   fst (parse_atom n G M tok args c) = direct_value n G M tok args
   \<and> valid_cache G M tok (snd (parse_atom n G M tok args c))"
proof (induction n arbitrary: args c)
  case 0
  then show ?case by (simp add: direct_value_def)
next
  case (Suc n)
  let ?f = "parse_atom_direct n G M tok" and ?g = "parse_atom n G M tok"
  let ?V = "valid_cache G M tok"
  have f: "\<And>args c. ?f args c = (direct_value n G M tok args, c)"
    by (rule parse_atom_direct_eq)
  have g: "\<And>atom t c. hashable t \<Longrightarrow> ?V c \<Longrightarrow>
      direct_value n G M tok [PStr atom, t] \<noteq> Inl RecursionError \<Longrightarrow>
      fst (?g [PStr atom, t] c) = direct_value n G M tok [PStr atom, t]
      \<and> ?V (snd (?g [PStr atom, t] c))"
    by (rule Suc.IH) simp_all
  have H: "\<And>atom t tree rem. hashable t \<Longrightarrow> direct_value n G M tok [PStr atom, t] = Inr (tree, rem)
      \<Longrightarrow> hashable rem" by (rule direct_hashable)
  have dv: "direct_value (Suc n) G M tok args = fst (parse_atom_body G M tok ?f args Map.empty)"
    by (simp add: direct_value_def)
  from Suc.prems(2) have hs: "list_all hashable args" by simp
  show ?case
  proof (cases "c args")
    case (Some r)
    with Suc.prems(1) obtain m where "direct_value m G M tok args = Inr r"
      unfolding valid_cache_def by blast
    from direct_unique [OF this Suc.prems(3)] Some hs Suc.prems(1)
    show ?thesis by (simp add: memo_def)
  next
    case None
    from Suc.prems(3) have nr: "fst (parse_atom_body G M tok ?f args Map.empty) \<noteq> Inl RecursionError"
      by (simp add: dv)
    have args: "\<And>atom t. args = [atom, t] \<Longrightarrow> hashable t" using hs by auto
    from body_agree [of ?f "direct_value n G M tok" hashable ?V ?g, OF f g H args Suc.prems(1) nr]
    obtain c' where b: "parse_atom_body G M tok ?g args c = (direct_value (Suc n) G M tok args, c')"
      and V: "?V c'"
      by (cases "parse_atom_body G M tok ?g args c") (auto simp: dv)
    show ?thesis
    proof (cases "direct_value (Suc n) G M tok args")
      case (Inl e)
      with b V None hs show ?thesis by (simp add: memo_def)
    next
      case (Inr r)
      with V have V': "?V (c'(args \<mapsto> r))" by (auto simp: valid_cache_def)
      from b Inr None hs
      have "memo (parse_atom_body G M tok ?g) args c = (Inr r, c'(args \<mapsto> r))"
        by (simp add: memo_def)
      with V' Inr show ?thesis by (simp del: fun_upd_apply)
    qed
  qed
qed

section \<open>Terminals\<close>










lemma valid_empty: "valid_cache G M tok Map.empty"
  by (simp add: valid_cache_def)



lemma terminal_match_sample:
  "terminal_spec py_re_match default_whitespace ''a'' ''  ab'' = Inr (PStr ''a'', PStr ''b'')"
  by code_simp


section \<open>Memoization, the JSON grammar and the unhashable arguments\<close>

lemma parse_transparent:
  assumes "hashable start_symbol" and "hashable t"
    and "parse_direct depth M start_symbol t G \<noteq> Inl RecursionError"
  shows "parse depth M start_symbol t G = parse_direct depth M start_symbol t G"
proof (cases "tokenizer_of G")
  case (Inl e)
  then show ?thesis by (simp add: parse_def parse_direct_def)
next
  case (Inr tok)
  with assms(3) have "direct_value depth G M tok [start_symbol, t] \<noteq> Inl RecursionError"
    by (simp add: parse_direct_def direct_value_def)
  with valid_empty assms(1,2)
  have "fst (parse_atom depth G M tok [start_symbol, t] Map.empty)
      = direct_value depth G M tok [start_symbol, t]"
    by (intro memo_transparent [THEN conjunct1]) simp_all
  with Inr show ?thesis by (simp add: parse_def parse_direct_def direct_value_def)
qed

lemma parse_direct_mono:
  assumes "n \<le> m" and "parse_direct n M start_symbol t G \<noteq> Inl RecursionError"
  shows "parse_direct m M start_symbol t G = parse_direct n M start_symbol t G"
proof (cases "tokenizer_of G")
  case (Inl e)
  then show ?thesis by (simp add: parse_direct_def)
next
  case (Inr tok)
  with assms(2) have "direct_value n G M tok [start_symbol, t] \<noteq> Inl RecursionError"
    by (simp add: parse_direct_def direct_value_def)
  from direct_mono [OF assms(1) this] Inr show ?thesis
    by (simp add: parse_direct_def direct_value_def)
qed




lemma json_number_direct:
  "(case JSON of
      Inl e \<Rightarrow> Inl e
    | Inr G \<Rightarrow> parse_direct 4 py_re_match (PStr ''value'') (PStr ''-123.456e+789'') G)
   = Inr (PList [PStr ''value'', PList [PStr ''number'', PList [PStr ''int'', PStr ''-123''],
            PList [PStr ''frac'', PStr ''.456''], PList [PStr ''exp'', PStr ''e+789'']]],
          PStr [])"
  by code_simp

text \<open>
  Claim C9. With the compiled JSON grammar, \<^verbatim>\<open>json_parse('-123.456e+789')\<close> is the tree
  \<^verbatim>\<open>['value', ['number', ['int', '-123'], ['frac', '.456'], ['exp', 'e+789']]]\<close> with the
  empty remainder, for every bound of at least 4 on the depth of the recursion.
\<close>

theorem json_number:
  "json_parse (4 + k) (PStr ''-123.456e+789'')
     = Inr (PList [PStr ''value'', PList [PStr ''number'', PList [PStr ''int'', PStr ''-123''],
              PList [PStr ''frac'', PStr ''.456''], PList [PStr ''exp'', PStr ''e+789'']]],
            PStr [])"
proof -
  let ?r = "Inr (PList [PStr ''value'', PList [PStr ''number'', PList [PStr ''int'', PStr ''-123''],
              PList [PStr ''frac'', PStr ''.456''], PList [PStr ''exp'', PStr ''e+789'']]],
            PStr []) :: error + result"
  from json_number_direct obtain G where J: "JSON = Inr G"
    and d: "parse_direct 4 py_re_match (PStr ''value'') (PStr ''-123.456e+789'') G = ?r"
    by (auto split: sum.splits)
  have "parse_direct (4 + k) py_re_match (PStr ''value'') (PStr ''-123.456e+789'') G = ?r"
    using parse_direct_mono [of 4 "4 + k" py_re_match "PStr ''value''" "PStr ''-123.456e+789''" G] d
    by simp
  moreover from this
  have "parse (4 + k) py_re_match (PStr ''value'') (PStr ''-123.456e+789'') G
      = parse_direct (4 + k) py_re_match (PStr ''value'') (PStr ''-123.456e+789'') G"
    by (intro parse_transparent) simp_all
  ultimately show ?thesis unfolding json_parse_def J by simp
qed

text \<open>
  \<^verbatim>\<open>test()\<close> of the file asserts three results of \<^verbatim>\<open>json_parse\<close>. The second is the
  one above; the model gives the other two as well, an array and an object.
\<close>

lemma json_array_test:
  "json_parse 20 (PStr (''['' @ [CHR 0x22] @ ''testing'' @ [CHR 0x22] @ '', 1, 2, 3]'')) =
   Inr (PList [PStr ''value'', PList [PStr ''array'', PStr ''['', PList [PStr ''elements'',
     PList [PStr ''value'', PList [PStr ''string'', PStr ([CHR 0x22] @ ''testing'' @ [CHR 0x22])]],
     PStr '','', PList [PStr ''elements'', PList [PStr ''value'', PList [PStr ''number'',
     PList [PStr ''int'', PStr ''1'']]], PStr '','', PList [PStr ''elements'', PList [PStr ''value'',
     PList [PStr ''number'', PList [PStr ''int'', PStr ''2'']]], PStr '','', PList [PStr ''elements'',
     PList [PStr ''value'', PList [PStr ''number'', PList [PStr ''int'', PStr ''3'']]]]]]],
     PStr '']'']], PStr [])"
  by code_simp

lemma json_object_test:
  "json_parse 30 (PStr (''{'' @ [CHR 0x22] @ ''age'' @ [CHR 0x22] @ '': 21, '' @ [CHR 0x22] @ ''state'' @ [CHR 0x22] @ '':'' @ [CHR 0x22] @ ''CO'' @ [CHR 0x22] @ '','' @ [CHR 0x22] @ ''occupation'' @ [CHR 0x22] @ '':'' @ [CHR 0x22] @ ''rides the rodeo'' @ [CHR 0x22] @ ''}'')) =
   Inr (PList [PStr ''value'', PList [PStr ''object'', PStr ''{'', PList [PStr ''members'',
     PList [PStr ''pair'', PList [PStr ''string'', PStr ([CHR 0x22] @ ''age'' @ [CHR 0x22])],
       PStr '':'', PList [PStr ''value'', PList [PStr ''number'', PList [PStr ''int'', PStr ''21'']]]],
     PStr '','', PList [PStr ''members'',
       PList [PStr ''pair'', PList [PStr ''string'', PStr ([CHR 0x22] @ ''state'' @ [CHR 0x22])],
         PStr '':'', PList [PStr ''value'', PList [PStr ''string'', PStr ([CHR 0x22] @ ''CO'' @ [CHR 0x22])]]],
       PStr '','', PList [PStr ''members'',
         PList [PStr ''pair'', PList [PStr ''string'', PStr ([CHR 0x22] @ ''occupation'' @ [CHR 0x22])],
           PStr '':'', PList [PStr ''value'', PList [PStr ''string'',
             PStr ([CHR 0x22] @ ''rides the rodeo'' @ [CHR 0x22])]]]]]],
     PStr ''}'']], PStr [])"
  by code_simp

lemma memo_unhashable:
  "\<not> hashable (PTuple args) \<Longrightarrow>
   memo (parse_atom_body G M tok pa) args c = (Inl TypeError, c)"
  by (simp add: memo_def parse_atom_body_def)

text \<open>
  Claim C1. When the lookup of \<^verbatim>\<open>args\<close> raises \<^verbatim>\<open>TypeError\<close>, the wrapper evaluates
  \<^verbatim>\<open>f(args)\<close>: it passes the tuple as the one argument of \<open>f\<close>, where the other branch
  evaluates \<^verbatim>\<open>f(*args)\<close>. \<^verbatim>\<open>parse_atom\<close> has two parameters, so the call raises
  \<^verbatim>\<open>TypeError\<close> (\<open>memo_unhashable\<close>) and never returns what \<^verbatim>\<open>parse_atom(atom, text)\<close>
  returns. The theorem evaluates both on the rule \<^verbatim>\<open>S\<close> whose only alternative is empty
  and the text \<^verbatim>\<open>[]\<close>, a list, which cannot be hashed: the function returns
  \<^verbatim>\<open>(['S'], [])\<close>, the wrapper raises.
\<close>

theorem memo_fallback_raises:
  "memo (parse_atom_body empty_rule_grammar M tok pa) [PStr ''S'', PList []] c
     = (Inl TypeError, c)
   \<and> parse_atom_body empty_rule_grammar M tok pa [PStr ''S'', PList []] c
     = (Inr (PList [PStr ''S''], PList []), c)
   \<and> parse (Suc depth) M (PStr ''S'') (PList []) empty_rule_grammar = Inl TypeError
   \<and> parse_direct (Suc depth) M (PStr ''S'') (PList []) empty_rule_grammar
     = Inr (PList [PStr ''S''], PList [])"
  by (simp add: memo_def parse_atom_body_def in_grammar_def empty_rule_grammar_def
      parse_def parse_direct_def tokenizer_of_def)

section \<open>Sequences and ordered choice\<close>

lemma seq_threads_direct:
  fixes f :: callable
  assumes f: "\<And>args c. f args c = (F args, c)"
  shows "threads (\<lambda>a t. F [PStr a, t]) atoms t trees rem \<Longrightarrow>
         parse_sequence f atoms t res c = (Inr (PList (res @ trees), rem), c)"
proof (induction atoms arbitrary: t trees res)
  case Nil
  then show ?case by (cases trees) simp_all
next
  case (Cons a atoms)
  from Cons.prems obtain tree trees' where trees: "trees = tree # trees'"
    by (cases trees) simp_all
  have fa: "f [PStr a, t] c = (F [PStr a, t], c)" by (rule f)
  from Cons.prems trees obtain t1 where 1: "F [PStr a, t] = Inr (tree, t1)" "t1 \<noteq> PNone"
    and 2: "threads (\<lambda>a t. F [PStr a, t]) atoms t1 trees' rem"
    by (auto split: sum.splits)
  from Cons.IH [OF 2, of "res @ [tree]"] 1 trees show ?case by (simp add: fa)
qed

lemma seq_fails_direct:
  fixes f :: callable
  assumes f: "\<And>args c. f args c = (F args, c)"
  shows "threads (\<lambda>a t. F [PStr a, t]) pre t trees t1 \<Longrightarrow> F [PStr a, t1] = Inr (tree, PNone) \<Longrightarrow>
         parse_sequence f (pre @ a # post) t res c = (Inr Fail, c)"
proof (induction pre arbitrary: t trees res)
  case Nil
  then have "t1 = t" by (cases trees) simp_all
  with Nil.prems(2) have "f [PStr a, t] c = (Inr (tree, PNone), c)" by (simp add: f)
  then show ?case by simp
next
  case (Cons b pre)
  from Cons.prems(1) obtain tr trees' where trees: "trees = tr # trees'"
    by (cases trees) simp_all
  have fb: "f [PStr b, t] c = (F [PStr b, t], c)" by (rule f)
  from Cons.prems(1) trees obtain t2 where 1: "F [PStr b, t] = Inr (tr, t2)" "t2 \<noteq> PNone"
    and 2: "threads (\<lambda>a t. F [PStr a, t]) pre t2 trees' t1"
    by (auto split: sum.splits)
  from Cons.IH [OF 2 Cons.prems(2), of "res @ [tr]"] 1 show ?case by (simp add: fb)
qed

lemma seq_memo:
  assumes "valid_cache G M tok c" and "hashable t"
    and "fst (parse_sequence (parse_atom_direct n G M tok) sequence t res Map.empty) \<noteq> Inl RecursionError"
  shows "fst (parse_sequence (parse_atom n G M tok) sequence t res c)
           = fst (parse_sequence (parse_atom_direct n G M tok) sequence t res Map.empty)
         \<and> valid_cache G M tok (snd (parse_sequence (parse_atom n G M tok) sequence t res c))"
proof (rule seq_agree [where f = "parse_atom_direct n G M tok" and F = "direct_value n G M tok"
      and H = hashable and V = "valid_cache G M tok" and g = "parse_atom n G M tok", rotated 3])
  show "hashable t" by (rule assms(2))
  show "valid_cache G M tok c" by (rule assms(1))
  show "fst (parse_sequence (parse_atom_direct n G M tok) sequence t res Map.empty) \<noteq> Inl RecursionError"
    by (rule assms(3))
  show "\<And>args c. parse_atom_direct n G M tok args c = (direct_value n G M tok args, c)"
    by (rule parse_atom_direct_eq)
  show "\<And>atom t c. hashable t \<Longrightarrow> valid_cache G M tok c \<Longrightarrow>
      direct_value n G M tok [PStr atom, t] \<noteq> Inl RecursionError \<Longrightarrow>
      fst (parse_atom n G M tok [PStr atom, t] c) = direct_value n G M tok [PStr atom, t]
      \<and> valid_cache G M tok (snd (parse_atom n G M tok [PStr atom, t] c))"
    by (rule memo_transparent) simp_all
  show "\<And>atom t tree rem. hashable t \<Longrightarrow> direct_value n G M tok [PStr atom, t] = Inr (tree, rem)
      \<Longrightarrow> hashable rem" by (rule direct_hashable)
qed

text \<open>
  Claim C5. \<^verbatim>\<open>parse_sequence\<close> calls \<^verbatim>\<open>parse_atom\<close> on the atoms in order, each on the
  remainder of the atom before. When every atom succeeds it returns the list of their
  trees, in order, with the last remainder; when an atom fails (its remainder is
  \<^verbatim>\<open>None\<close>) after the atoms before it succeeded, it returns \<^verbatim>\<open>(None, None)\<close>, whatever
  atoms follow, and no tree of the atoms before. Stated for the decorated
  \<^verbatim>\<open>parse_atom\<close> in any valid cache.
\<close>

theorem sequence_threads:
  assumes "valid_cache G M tok c" and "hashable t"
  shows "(threads (atom_value n G M tok) atoms t trees rem \<longrightarrow>
            fst (parse_sequence (parse_atom n G M tok) atoms t [] c) = Inr (PList trees, rem))
       \<and> (threads (atom_value n G M tok) pre t trees' t1
            \<and> atom_value n G M tok a t1 = Inr (tree, PNone) \<longrightarrow>
            fst (parse_sequence (parse_atom n G M tok) (pre @ a # post) t [] c) = Inr Fail)"
proof (intro conjI impI)
  have f: "\<And>args c. parse_atom_direct n G M tok args c = (direct_value n G M tok args, c)"
    by (rule parse_atom_direct_eq)
  have av: "atom_value n G M tok = (\<lambda>a t. direct_value n G M tok [PStr a, t])"
    by (intro ext) (simp add: atom_value_def)
  {
    assume "threads (atom_value n G M tok) atoms t trees rem"
    then have "parse_sequence (parse_atom_direct n G M tok) atoms t [] Map.empty
        = (Inr (PList ([] @ trees), rem), Map.empty)"
      unfolding av by (rule seq_threads_direct [OF f])
    then have d: "fst (parse_sequence (parse_atom_direct n G M tok) atoms t [] Map.empty)
        = Inr (PList trees, rem)" by simp
    with seq_memo [OF assms, of n atoms "[]"]
    show "fst (parse_sequence (parse_atom n G M tok) atoms t [] c) = Inr (PList trees, rem)"
      by simp
  next
    assume a: "threads (atom_value n G M tok) pre t trees' t1
        \<and> atom_value n G M tok a t1 = Inr (tree, PNone)"
    then have "parse_sequence (parse_atom_direct n G M tok) (pre @ a # post) t [] Map.empty
        = (Inr Fail, Map.empty)"
      unfolding av by (intro seq_fails_direct [OF f]) auto
    then have d: "fst (parse_sequence (parse_atom_direct n G M tok) (pre @ a # post) t [] Map.empty)
        = Inr Fail" by simp
    with seq_memo [OF assms, of n "pre @ a # post" "[]"]
    show "fst (parse_sequence (parse_atom n G M tok) (pre @ a # post) t [] c) = Inr Fail"
      by simp
  }
qed

theorem sequence_threads_witness:
  "valid_cache sample_grammar py_re_match (default_whitespace @ ''(%s)'') Map.empty
   \<and> hashable (PStr ''a ab'')
   \<and> threads (atom_value 3 sample_grammar py_re_match (default_whitespace @ ''(%s)''))
         [''a'', ''S''] (PStr ''a ab'') [PStr ''a'', PList [PStr ''S'', PStr ''a'']] (PStr ''b'')
   \<and> fst (parse_sequence (parse_atom 3 sample_grammar py_re_match (default_whitespace @ ''(%s)''))
         [''a'', ''S''] (PStr ''a ab'') [] Map.empty)
       = Inr (PList [PStr ''a'', PList [PStr ''S'', PStr ''a'']], PStr ''b'')
   \<and> threads (atom_value 3 sample_grammar py_re_match (default_whitespace @ ''(%s)''))
         [''a''] (PStr ''a ab'') [PStr ''a''] (PStr '' ab'')
   \<and> atom_value 3 sample_grammar py_re_match (default_whitespace @ ''(%s)'') ''x'' (PStr '' ab'')
       = Inr (PNone, PNone)
   \<and> fst (parse_sequence (parse_atom 3 sample_grammar py_re_match (default_whitespace @ ''(%s)''))
         ([''a''] @ ''x'' # [''S'']) (PStr ''a ab'') [] Map.empty)
       = Inr Fail"
proof -
  let ?tok = "default_whitespace @ ''(%s)''"
  have 1: "valid_cache sample_grammar py_re_match ?tok Map.empty" by (rule valid_empty)
  have 2: "hashable (PStr ''a ab'')" by simp
  have 3: "threads (atom_value 3 sample_grammar py_re_match ?tok)
         [''a'', ''S''] (PStr ''a ab'') [PStr ''a'', PList [PStr ''S'', PStr ''a'']] (PStr ''b'')"
    by code_simp
  have 4: "threads (atom_value 3 sample_grammar py_re_match ?tok)
         [''a''] (PStr ''a ab'') [PStr ''a''] (PStr '' ab'')"
    by code_simp
  have 5: "atom_value 3 sample_grammar py_re_match ?tok ''x'' (PStr '' ab'') = Inr (PNone, PNone)"
    by code_simp
  from sequence_threads [OF 1 2, where n = 3 and atoms = "[''a'', ''S'']"
      and trees = "[PStr ''a'', PList [PStr ''S'', PStr ''a'']]" and rem = "PStr ''b''"
      and pre = "[''a'']" and trees' = "[PStr ''a'']" and ?t1.0 = "PStr '' ab''" and a = "''x''"
      and tree = PNone and post = "[''S'']"] 1 2 3 4 5
  show ?thesis by blast
qed

lemma alts_first_direct:
  fixes f :: callable
  assumes f: "\<And>args c. f args c = (F args, c)"
  shows "\<forall>p\<in>set pre. \<exists>tree. fst (parse_sequence f p t [] Map.empty) = Inr (tree, PNone) \<Longrightarrow>
         fst (parse_sequence f alternative t [] Map.empty) = Inr (PList trees, rem) \<Longrightarrow>
         rem \<noteq> PNone \<Longrightarrow>
         parse_alternatives f a (pre @ alternative # post) t c = (Inr (PList (a # trees), rem), c)"
proof (induction pre)
  case Nil
  have pf: "pure f" using f by (auto simp: pure_def)
  from parse_sequence_pure [OF pf] obtain x
    where sf: "\<And>c. parse_sequence f alternative t [] c = (x, c)" by blast
  with Nil show ?case by simp
next
  case (Cons p pre)
  have pf: "pure f" using f by (auto simp: pure_def)
  from parse_sequence_pure [OF pf] obtain x
    where sf: "\<And>c. parse_sequence f p t [] c = (x, c)" by blast
  from Cons.prems(1) obtain tree where "fst (parse_sequence f p t [] Map.empty) = Inr (tree, PNone)"
    by auto
  with sf have "x = Inr (tree, PNone)" by simp
  with sf Cons show ?case by simp
qed

lemma alts_all_fail_direct:
  fixes f :: callable
  assumes f: "\<And>args c. f args c = (F args, c)"
  shows "fst (parse_alternatives f a alternatives t c) = Inr Fail \<longleftrightarrow>
         (\<forall>p\<in>set alternatives. \<exists>tree. fst (parse_sequence f p t [] Map.empty) = Inr (tree, PNone))"
proof (induction alternatives)
  case Nil
  show ?case by simp
next
  case (Cons p alternatives)
  have pf: "pure f" using f by (auto simp: pure_def)
  from parse_sequence_pure [OF pf] obtain x
    where sf: "\<And>c. parse_sequence f p t [] c = (x, c)" by blast
  show ?case
  proof (cases x)
    case (Inl e)
    with sf show ?thesis by simp
  next
    case (Inr r)
    obtain tree rem where r: "r = (tree, rem)" by (cases r)
    show ?thesis
    proof (cases "rem = PNone")
      case True
      with Inr r sf Cons.IH show ?thesis by simp
    next
      case False
      with Inr r sf show ?thesis
        by (cases "list_plus [a] tree") (simp_all add: Fail_def)
    qed
  qed
qed

lemma direct_nonterminal:
  "G atom = Some alts \<Longrightarrow>
   direct_value (Suc n) G M tok [PStr atom, t]
     = fst (parse_alternatives (parse_atom_direct n G M tok) (PStr atom) (alternatives_of alts) t
             Map.empty)"
  by (simp add: direct_value_def parse_atom_body_def in_grammar_def)

lemma sequence_fails_iff:
  "sequence_fails n G M tok p t \<longleftrightarrow> (\<exists>tree. sequence_value n G M tok p t = Inr (tree, PNone))"
  by (auto simp: sequence_fails_def split: sum.splits)

text \<open>
  Claim C2. For a key \<open>atom\<close> of the grammar, \<^verbatim>\<open>parse_atom\<close> takes the alternatives in
  their order: when the alternatives before one fail and that one succeeds with the
  trees \<open>trees\<close> and the remainder \<open>rem\<close>, the result is \<^verbatim>\<open>([atom] + trees, rem)\<close>,
  whatever the alternatives after it would match; when all fail, the result is
  \<^verbatim>\<open>(None, None)\<close>; and for a call that ends within the bound on the depth the result is
  \<^verbatim>\<open>(None, None)\<close> only if all alternatives fail.
\<close>

theorem ordered_choice:
  assumes "valid_cache G M tok c" and "hashable t" and "G atom = Some alts"
  shows "(alternatives_of alts = pre @ alternative # post
            \<and> list_all (\<lambda>p. sequence_fails n G M tok p t) pre
            \<and> sequence_value n G M tok alternative t = Inr (PList trees, rem) \<and> rem \<noteq> PNone
          \<longrightarrow> fst (parse_atom (Suc n) G M tok [PStr atom, t] c)
                = Inr (PList (PStr atom # trees), rem))
       \<and> (list_all (\<lambda>p. sequence_fails n G M tok p t) (alternatives_of alts)
          \<longrightarrow> fst (parse_atom (Suc n) G M tok [PStr atom, t] c) = Inr Fail)
       \<and> (fst (parse_atom (Suc n) G M tok [PStr atom, t] c) = Inr Fail
            \<and> direct_value (Suc n) G M tok [PStr atom, t] \<noteq> Inl RecursionError
          \<longrightarrow> list_all (\<lambda>p. sequence_fails n G M tok p t) (alternatives_of alts))"
proof -
  let ?f = "parse_atom_direct n G M tok"
  have f: "\<And>args c. ?f args c = (direct_value n G M tok args, c)"
    by (rule parse_atom_direct_eq)
  have dv: "direct_value (Suc n) G M tok [PStr atom, t]
      = fst (parse_alternatives ?f (PStr atom) (alternatives_of alts) t Map.empty)"
    using assms(3) by (rule direct_nonterminal)
  have h: "hashable (PTuple [PStr atom, t])" using assms(2) by simp
  have memo: "direct_value (Suc n) G M tok [PStr atom, t] \<noteq> Inl RecursionError \<Longrightarrow>
      fst (parse_atom (Suc n) G M tok [PStr atom, t] c) = direct_value (Suc n) G M tok [PStr atom, t]"
    using memo_transparent [OF assms(1) h] by blast
  have fails: "list_all (\<lambda>p. sequence_fails n G M tok p t) ps \<longleftrightarrow>
      (\<forall>p\<in>set ps. \<exists>tree. fst (parse_sequence ?f p t [] Map.empty) = Inr (tree, PNone))" for ps
    by (simp add: list_all_iff sequence_fails_iff sequence_value_def)
  show ?thesis
  proof (intro conjI impI)
    assume a: "alternatives_of alts = pre @ alternative # post
            \<and> list_all (\<lambda>p. sequence_fails n G M tok p t) pre
            \<and> sequence_value n G M tok alternative t = Inr (PList trees, rem) \<and> rem \<noteq> PNone"
    then have "parse_alternatives ?f (PStr atom) (pre @ alternative # post) t Map.empty
        = (Inr (PList (PStr atom # trees), rem), Map.empty)"
      by (intro alts_first_direct [OF f]) (simp_all add: fails sequence_value_def)
    with a have "direct_value (Suc n) G M tok [PStr atom, t] = Inr (PList (PStr atom # trees), rem)"
      by (simp add: dv)
    with memo show "fst (parse_atom (Suc n) G M tok [PStr atom, t] c)
        = Inr (PList (PStr atom # trees), rem)" by simp
  next
    assume "list_all (\<lambda>p. sequence_fails n G M tok p t) (alternatives_of alts)"
    then have "direct_value (Suc n) G M tok [PStr atom, t] = Inr Fail"
      unfolding dv fails by (simp add: alts_all_fail_direct [OF f])
    with memo show "fst (parse_atom (Suc n) G M tok [PStr atom, t] c) = Inr Fail" by simp
  next
    assume a: "fst (parse_atom (Suc n) G M tok [PStr atom, t] c) = Inr Fail
        \<and> direct_value (Suc n) G M tok [PStr atom, t] \<noteq> Inl RecursionError"
    with memo have "direct_value (Suc n) G M tok [PStr atom, t] = Inr Fail" by simp
    then show "list_all (\<lambda>p. sequence_fails n G M tok p t) (alternatives_of alts)"
      unfolding dv fails by (simp add: alts_all_fail_direct [OF f])
  qed
qed

theorem ordered_choice_witness:
  "valid_cache short_first_grammar py_re_match (default_whitespace @ ''(%s)'') Map.empty
   \<and> hashable (PStr ''aa'') \<and> hashable (PStr ''b'')
   \<and> short_first_grammar ''S'' = Some (Alts [[''a''], [''a'', ''S'']])
   \<and> alternatives_of (Alts [[''a''], [''a'', ''S'']]) = [] @ [''a''] # [[''a'', ''S'']]
   \<and> list_all (\<lambda>p. sequence_fails 3 short_first_grammar py_re_match
         (default_whitespace @ ''(%s)'') p (PStr ''aa'')) []
   \<and> sequence_value 3 short_first_grammar py_re_match (default_whitespace @ ''(%s)'')
         [''a''] (PStr ''aa'') = Inr (PList [PStr ''a''], PStr ''a'')
   \<and> PStr ''a'' \<noteq> PNone
   \<and> sequence_value 3 short_first_grammar py_re_match (default_whitespace @ ''(%s)'')
         [''a'', ''S''] (PStr ''aa'') = Inr (PList [PStr ''a'', PList [PStr ''S'', PStr ''a'']], PStr [])
   \<and> fst (parse_atom (Suc 3) short_first_grammar py_re_match (default_whitespace @ ''(%s)'')
         [PStr ''S'', PStr ''aa''] Map.empty) = Inr (PList (PStr ''S'' # [PStr ''a'']), PStr ''a'')
   \<and> list_all (\<lambda>p. sequence_fails 3 short_first_grammar py_re_match
         (default_whitespace @ ''(%s)'') p (PStr ''b'')) (alternatives_of (Alts [[''a''], [''a'', ''S'']]))
   \<and> fst (parse_atom (Suc 3) short_first_grammar py_re_match (default_whitespace @ ''(%s)'')
         [PStr ''S'', PStr ''b''] Map.empty) = Inr Fail
   \<and> direct_value (Suc 3) short_first_grammar py_re_match (default_whitespace @ ''(%s)'')
         [PStr ''S'', PStr ''b''] \<noteq> Inl RecursionError"
proof -
  let ?G = short_first_grammar and ?tok = "default_whitespace @ ''(%s)''"
  have v: "valid_cache ?G py_re_match ?tok Map.empty" by (rule valid_empty)
  have h1: "hashable (PStr ''aa'')" and h2: "hashable (PStr ''b'')" by simp_all
  have g: "?G ''S'' = Some (Alts [[''a''], [''a'', ''S'']])" by (simp add: short_first_grammar_def)
  have a1: "alternatives_of (Alts [[''a''], [''a'', ''S'']]) = [] @ [''a''] # [[''a'', ''S'']]"
    by simp
  have a2: "list_all (\<lambda>p. sequence_fails 3 ?G py_re_match ?tok p (PStr ''aa'')) []" by simp
  have a3: "sequence_value 3 ?G py_re_match ?tok [''a''] (PStr ''aa'')
      = Inr (PList [PStr ''a''], PStr ''a'')" by code_simp
  have a4: "PStr ''a'' \<noteq> PNone" by simp
  have a5: "sequence_value 3 ?G py_re_match ?tok [''a'', ''S''] (PStr ''aa'')
      = Inr (PList [PStr ''a'', PList [PStr ''S'', PStr ''a'']], PStr [])" by code_simp
  have b1: "list_all (\<lambda>p. sequence_fails 3 ?G py_re_match ?tok p (PStr ''b''))
      (alternatives_of (Alts [[''a''], [''a'', ''S'']]))" by code_simp
  have b2: "direct_value (Suc 3) ?G py_re_match ?tok [PStr ''S'', PStr ''b''] = Inr Fail"
    by code_simp
  then have b3: "direct_value (Suc 3) ?G py_re_match ?tok [PStr ''S'', PStr ''b'']
      \<noteq> Inl RecursionError" by simp
  from ordered_choice [OF v h1 g, where n = 3 and pre = "[]" and alternative = "[''a'']"
      and post = "[[''a'', ''S'']]" and trees = "[PStr ''a'']" and rem = "PStr ''a''"]
    a1 a2 a3 a4
  have r1: "fst (parse_atom (Suc 3) ?G py_re_match ?tok [PStr ''S'', PStr ''aa''] Map.empty)
      = Inr (PList (PStr ''S'' # [PStr ''a'']), PStr ''a'')" by blast
  from ordered_choice [OF v h2 g, where n = 3] b1
  have r2: "fst (parse_atom (Suc 3) ?G py_re_match ?tok [PStr ''S'', PStr ''b''] Map.empty)
      = Inr Fail" by blast
  from v h1 h2 g a1 a2 a3 a4 a5 r1 b1 r2 b3 show ?thesis by blast
qed

section \<open>The failure signal\<close>

lemma seq_result_shape:
  "t \<noteq> PNone \<Longrightarrow> fst (parse_sequence pa sequence t res c) = Inr r \<Longrightarrow>
   r = Fail \<or> (\<exists>trees. fst r = PList trees \<and> snd r \<noteq> PNone)"
proof (induction sequence arbitrary: t res c)
  case Nil
  then show ?case by auto
next
  case (Cons a sequence)
  obtain x c' where x: "pa [PStr a, t] c = (x, c')" by (cases "pa [PStr a, t] c")
  show ?case
  proof (cases x)
    case (Inl e)
    with x Cons.prems show ?thesis by simp
  next
    case (Inr p)
    obtain tree t' where p: "p = (tree, t')" by (cases p)
    show ?thesis
    proof (cases "t' = PNone")
      case True
      with Inr p x Cons.prems show ?thesis by simp
    next
      case False
      with Inr p x Cons.prems(2)
      have "fst (parse_sequence pa sequence t' (res @ [tree]) c') = Inr r" by simp
      with False show ?thesis by (rule Cons.IH)
    qed
  qed
qed

lemma alts_result_shape:
  "fst (parse_alternatives pa a alternatives t c) = Inr r \<Longrightarrow>
   r = Fail \<or> (\<exists>trees. fst r = PList trees \<and> snd r \<noteq> PNone)"
proof (induction alternatives arbitrary: c)
  case Nil
  then show ?case by simp
next
  case (Cons p alternatives)
  obtain x c' where x: "parse_sequence pa p t [] c = (x, c')"
    by (cases "parse_sequence pa p t [] c")
  show ?case
  proof (cases x)
    case (Inl e)
    with x Cons.prems show ?thesis by simp
  next
    case (Inr q)
    obtain tree rem where q: "q = (tree, rem)" by (cases q)
    show ?thesis
    proof (cases "rem = PNone")
      case True
      with Inr q x Cons.prems have "fst (parse_alternatives pa a alternatives t c') = Inr r"
        by simp
      then show ?thesis by (rule Cons.IH)
    next
      case False
      with Inr q x Cons.prems show ?thesis
        by (cases tree) auto
    qed
  qed
qed

lemma slice_from_not_None: "slice_from t n = Inr rem \<Longrightarrow> rem \<noteq> PNone"
  by (cases t) auto

lemma match_terminal_shape:
  "match_terminal M tok atom t = Inr r \<Longrightarrow>
   r = Fail \<or> (snd r \<noteq> PNone \<and> (\<exists>pattern e. M pattern t = Inr (Some (fst r, e))))"
proof -
  assume a: "match_terminal M tok atom t = Inr r"
  then obtain pattern where p: "str_mod tok atom = Inr pattern"
    by (auto simp: match_terminal_def split: sum.splits)
  show ?thesis
  proof (cases "M pattern t")
    case (Inl e)
    with a p show ?thesis by (simp add: match_terminal_def)
  next
    case (Inr m)
    show ?thesis
    proof (cases m)
      case None
      with a p Inr show ?thesis by (simp add: match_terminal_def)
    next
      case (Some ge)
      obtain g e where ge: "ge = (g, e)" by (cases ge)
      with a p Inr Some obtain rem where rem: "slice_from t e = Inr rem" and r: "r = (g, rem)"
        by (auto simp: match_terminal_def split: sum.splits)
      from rem have "rem \<noteq> PNone" by (rule slice_from_not_None)
      with r Inr Some ge show ?thesis by auto
    qed
  qed
qed

lemma body_result_closed:
  "fst (parse_atom_body G M tok pa args c) = Inr r \<Longrightarrow> fail_closed r"
proof -
  assume a: "fst (parse_atom_body G M tok pa args c) = Inr r"
  then obtain atom t where args: "args = [atom, t]"
    by (auto simp: parse_atom_body_def split: list.splits)
  show ?thesis
  proof (cases "in_grammar G atom")
    case (Inl e)
    with a args show ?thesis by (simp add: parse_atom_body_def)
  next
    case (Inr k)
    show ?thesis
    proof (cases k)
      case None
      with a args Inr have "match_terminal M tok atom t = Inr r" by (simp add: parse_atom_body_def)
      from match_terminal_shape [OF this] show ?thesis by (auto simp: fail_closed_def)
    next
      case (Some alts)
      with a args Inr
      have "fst (parse_alternatives pa atom (alternatives_of alts) t c) = Inr r"
        by (simp add: parse_atom_body_def)
      from alts_result_shape [OF this] show ?thesis by (auto simp: fail_closed_def)
    qed
  qed
qed

lemma seq_cache_ok:
  assumes pa: "\<And>args c. cache_ok c \<Longrightarrow> cache_ok (snd (pa args c))"
  shows "cache_ok c \<Longrightarrow> cache_ok (snd (parse_sequence pa sequence t res c))"
proof (induction sequence arbitrary: t res c)
  case Nil
  then show ?case by simp
next
  case (Cons a sequence)
  obtain x c' where x: "pa [PStr a, t] c = (x, c')" by (cases "pa [PStr a, t] c")
  with pa [OF Cons.prems, of "[PStr a, t]"] have ok: "cache_ok c'" by simp
  show ?case
  proof (cases x)
    case (Inl e)
    with x ok show ?thesis by simp
  next
    case (Inr p)
    obtain tree t' where p: "p = (tree, t')" by (cases p)
    from Cons.IH [OF ok] Inr p x ok show ?thesis by (cases "t' = PNone") simp_all
  qed
qed

lemma alts_cache_ok:
  assumes pa: "\<And>args c. cache_ok c \<Longrightarrow> cache_ok (snd (pa args c))"
  shows "cache_ok c \<Longrightarrow> cache_ok (snd (parse_alternatives pa a alternatives t c))"
proof (induction alternatives arbitrary: c)
  case Nil
  then show ?case by simp
next
  case (Cons p alternatives)
  obtain x c' where x: "parse_sequence pa p t [] c = (x, c')"
    by (cases "parse_sequence pa p t [] c")
  with seq_cache_ok [of pa c p t "[]", OF pa Cons.prems] have ok: "cache_ok c'" by simp
  show ?case
  proof (cases x)
    case (Inl e)
    with x ok show ?thesis by simp
  next
    case (Inr q)
    obtain tree rem where q: "q = (tree, rem)" by (cases q)
    from Cons.IH [OF ok] Inr q x ok show ?thesis
      by (cases "rem = PNone"; cases "list_plus [a] tree") simp_all
  qed
qed

lemma body_cache_ok:
  assumes pa: "\<And>args c. cache_ok c \<Longrightarrow> cache_ok (snd (pa args c))"
    and c: "cache_ok c"
  shows "cache_ok (snd (parse_atom_body G M tok pa args c))"
proof (cases "\<exists>atom t. args = [atom, t]")
  case False
  then have "parse_atom_body G M tok pa args c = (Inl TypeError, c)"
    by (auto simp: parse_atom_body_def split: list.splits)
  with c show ?thesis by simp
next
  case True
  then obtain atom t where args: "args = [atom, t]" by blast
  show ?thesis
  proof (cases "in_grammar G atom")
    case (Inl e)
    with args c show ?thesis by (simp add: parse_atom_body_def)
  next
    case (Inr k)
    show ?thesis
    proof (cases k)
      case None
      with args Inr c show ?thesis by (simp add: parse_atom_body_def)
    next
      case (Some alts)
      with args Inr alts_cache_ok [of pa c atom "alternatives_of alts" t, OF pa c]
      show ?thesis by (simp add: parse_atom_body_def)
    qed
  qed
qed

lemma memo_cache_ok:
  assumes f: "\<And>args c. cache_ok c \<Longrightarrow> cache_ok (snd (f args c))"
    and r: "\<And>args c r. fst (f args c) = Inr r \<Longrightarrow> fail_closed r"
    and c: "cache_ok c"
  shows "(\<forall>r. fst (memo f args c) = Inr r \<longrightarrow> fail_closed r) \<and> cache_ok (snd (memo f args c))"
proof (cases "hashable (PTuple args)")
  case False
  with f [OF c, of "[PTuple args]"] r [of "[PTuple args]" c] show ?thesis
    by (simp add: memo_def)
next
  case True
  show ?thesis
  proof (cases "c args")
    case (Some x)
    with c have "fail_closed x" unfolding cache_ok_def by blast
    with True Some c show ?thesis by (simp add: memo_def)
  next
    case None
    obtain x c' where x: "f args c = (x, c')" by (cases "f args c")
    with f [OF c, of args] have ok: "cache_ok c'" by simp
    show ?thesis
    proof (cases x)
      case (Inl e)
      with True None x ok show ?thesis by (simp add: memo_def)
    next
      case (Inr v)
      with x r [of args c] have "fail_closed v" by simp
      with ok have "cache_ok (c'(args \<mapsto> v))" by (auto simp: cache_ok_def)
      moreover from True None x Inr have "memo f args c = (Inr v, c'(args \<mapsto> v))"
        by (simp add: memo_def)
      ultimately show ?thesis using \<open>fail_closed v\<close> by (simp del: fun_upd_apply)
    qed
  qed
qed

lemma parse_atom_ok:
  "cache_ok c \<Longrightarrow>
   (\<forall>r. fst (parse_atom depth G M tok args c) = Inr r \<longrightarrow> fail_closed r)
   \<and> cache_ok (snd (parse_atom depth G M tok args c))"
proof (induction depth arbitrary: args c)
  case 0
  then show ?case by simp
next
  case (Suc depth)
  have pa: "\<And>args c. cache_ok c \<Longrightarrow> cache_ok (snd (parse_atom depth G M tok args c))"
    using Suc.IH by blast
  show ?case
    unfolding parse_atom.simps
  proof (rule memo_cache_ok)
    show "\<And>args c. cache_ok c \<Longrightarrow>
        cache_ok (snd (parse_atom_body G M tok (parse_atom depth G M tok) args c))"
      by (rule body_cache_ok [OF pa])
    show "\<And>args c r. fst (parse_atom_body G M tok (parse_atom depth G M tok) args c) = Inr r
        \<Longrightarrow> fail_closed r" by (rule body_result_closed)
    show "cache_ok c" by (rule Suc.prems)
  qed
qed

lemma cache_ok_empty: "cache_ok Map.empty"
  by (simp add: cache_ok_def)

lemma parse_None_tree:
  assumes "parse depth M start t G = Inr (PNone, rem)" and "rem \<noteq> PNone"
  shows "in_grammar G start = Inr None \<and> (\<exists>pattern e. M pattern t = Inr (Some (PNone, e)))"
proof -
  from assms(1) obtain tok where tok: "tokenizer_of G = Inr tok"
    and p: "fst (parse_atom depth G M tok [start, t] Map.empty) = Inr (PNone, rem)"
    by (auto simp: parse_def split: sum.splits)
  from p obtain n where n: "depth = Suc n" by (cases depth) simp_all
  let ?b = "parse_atom_body G M tok (parse_atom n G M tok)"
  have b: "fst (?b [start, t] Map.empty) = Inr (PNone, rem)"
  proof (cases "hashable (PTuple [start, t])")
    case False
    with p n show ?thesis by (simp add: memo_def parse_atom_body_def)
  next
    case True
    with p n show ?thesis
      by (cases "?b [start, t] Map.empty") (auto simp: memo_def split: sum.splits)
  qed
  show ?thesis
  proof (cases "in_grammar G start")
    case (Inl e)
    with b show ?thesis by (simp add: parse_atom_body_def)
  next
    case (Inr k)
    show ?thesis
    proof (cases k)
      case None
      with b Inr have "match_terminal M tok start t = Inr (PNone, rem)"
        by (simp add: parse_atom_body_def)
      from match_terminal_shape [OF this] assms(2) Inr None show ?thesis
        by (auto simp: Fail_def)
    next
      case (Some alts)
      with b Inr
      have "fst (parse_alternatives (parse_atom n G M tok) start (alternatives_of alts) t Map.empty)
          = Inr (PNone, rem)" by (simp add: parse_atom_body_def)
      from alts_result_shape [OF this] assms(2) show ?thesis by (auto simp: Fail_def)
    qed
  qed
qed

text \<open>
  Claim C8, amended. Failure is the returned pair \<^verbatim>\<open>(None, None)\<close>, and it is the only
  returned pair whose remainder is \<^verbatim>\<open>None\<close>: for \<^verbatim>\<open>parse\<close>, for every call of
  \<^verbatim>\<open>parse_atom\<close> (the entries of the cache keep the property) and for every call of
  \<^verbatim>\<open>parse_sequence\<close> on a text that is not \<^verbatim>\<open>None\<close>. A result of \<^verbatim>\<open>parse\<close> with a
  remainder has a tree too, unless the start symbol is a terminal whose match leaves
  group 1 unset. Failure moves upward one level at a time: a terminal without a match
  returns \<^verbatim>\<open>(None, None)\<close>; a failing atom makes \<^verbatim>\<open>parse_sequence\<close> return
  \<^verbatim>\<open>(None, None)\<close>; after a failing alternative \<^verbatim>\<open>parse_atom\<close> goes on with the
  alternatives that are left, and returns \<^verbatim>\<open>(None, None)\<close> when none is; and \<^verbatim>\<open>parse\<close>
  returns what \<^verbatim>\<open>parse_atom\<close> returns on the start symbol.
\<close>

theorem failure_signal:
  "(parse depth M start t G = Inr r \<longrightarrow> fail_closed r)
   \<and> (parse depth M start t G = Inr (PNone, rem) \<and> rem \<noteq> PNone \<longrightarrow>
        in_grammar G start = Inr None \<and> (\<exists>pattern e. M pattern t = Inr (Some (PNone, e))))
   \<and> (cache_ok c \<and> fst (parse_atom depth G M tok args c) = Inr r1 \<longrightarrow> fail_closed r1)
   \<and> (cache_ok c \<longrightarrow> cache_ok (snd (parse_atom depth G M tok args c)))
   \<and> (t2 \<noteq> PNone \<and> fst (parse_sequence pa sequence t2 res c2) = Inr r2 \<longrightarrow> fail_closed r2)
   \<and> (str_mod tok atom = Inr pattern \<and> M pattern t3 = Inr None \<longrightarrow>
        match_terminal M tok atom t3 = Inr Fail)
   \<and> (pa [PStr a, t4] c4 = (Inr (tree, PNone), c5) \<longrightarrow>
        parse_sequence pa (a # sequence) t4 res c4 = (Inr Fail, c5))
   \<and> (parse_sequence pa alternative t6 [] c6 = (Inr (tree6, PNone), c7) \<longrightarrow>
        parse_alternatives pa atom6 (alternative # alternatives) t6 c6
          = parse_alternatives pa atom6 alternatives t6 c7)
   \<and> parse_alternatives pa atom6 [] t6 c6 = (Inr Fail, c6)
   \<and> (tokenizer_of G = Inr tok \<longrightarrow>
        parse depth M start t G = fst (parse_atom depth G M tok [start, t] Map.empty))"
proof (intro conjI impI)
  assume "parse depth M start t G = Inr r"
  then obtain tok' where "fst (parse_atom depth G M tok' [start, t] Map.empty) = Inr r"
    by (auto simp: parse_def split: sum.splits)
  with parse_atom_ok [OF cache_ok_empty] show "fail_closed r" by blast
next
  assume "parse depth M start t G = Inr (PNone, rem) \<and> rem \<noteq> PNone"
  then have "in_grammar G start = Inr None \<and> (\<exists>pattern e. M pattern t = Inr (Some (PNone, e)))"
    by (intro parse_None_tree) auto
  then show "in_grammar G start = Inr None" "\<exists>pattern e. M pattern t = Inr (Some (PNone, e))"
    by auto
next
  assume "cache_ok c \<and> fst (parse_atom depth G M tok args c) = Inr r1"
  with parse_atom_ok show "fail_closed r1" by blast
next
  assume "cache_ok c"
  with parse_atom_ok show "cache_ok (snd (parse_atom depth G M tok args c))" by blast
next
  assume "t2 \<noteq> PNone \<and> fst (parse_sequence pa sequence t2 res c2) = Inr r2"
  then have "r2 = Fail \<or> (\<exists>trees. fst r2 = PList trees \<and> snd r2 \<noteq> PNone)"
    by (intro seq_result_shape) auto
  then show "fail_closed r2" by (auto simp: fail_closed_def)
next
  assume "str_mod tok atom = Inr pattern \<and> M pattern t3 = Inr None"
  then show "match_terminal M tok atom t3 = Inr Fail" by (simp add: match_terminal_def)
next
  assume "pa [PStr a, t4] c4 = (Inr (tree, PNone), c5)"
  then show "parse_sequence pa (a # sequence) t4 res c4 = (Inr Fail, c5)" by simp
next
  assume "parse_sequence pa alternative t6 [] c6 = (Inr (tree6, PNone), c7)"
  then show "parse_alternatives pa atom6 (alternative # alternatives) t6 c6
      = parse_alternatives pa atom6 alternatives t6 c7" by simp
next
  show "parse_alternatives pa atom6 [] t6 c6 = (Inr Fail, c6)" by simp
next
  assume "tokenizer_of G = Inr tok"
  then show "parse depth M start t G = fst (parse_atom depth G M tok [start, t] Map.empty)"
    by (simp add: parse_def)
qed

theorem failure_signal_witness:
  "parse 1 py_re_match (PStr ''a'') (PStr ''a'') group_grammar = Inr (PNone, PStr [])
   \<and> fail_closed (PNone, PStr [])
   \<and> PStr [] \<noteq> PNone
   \<and> in_grammar group_grammar (PStr ''a'') = Inr None
   \<and> (\<exists>pattern e. py_re_match pattern (PStr ''a'') = Inr (Some (PNone, e)))
   \<and> cache_ok Map.empty
   \<and> fst (parse_atom 1 group_grammar py_re_match (''('' @ [CHR 0x5C] @ ''s)*(%s)'')
         [PStr ''a'', PStr ''a''] Map.empty) = Inr (PNone, PStr [])
   \<and> cache_ok (snd (parse_atom 1 group_grammar py_re_match (''('' @ [CHR 0x5C] @ ''s)*(%s)'')
         [PStr ''a'', PStr ''a''] Map.empty))
   \<and> PStr ''a'' \<noteq> PNone
   \<and> fst (parse_sequence (parse_atom_direct 1 group_grammar py_re_match (''('' @ [CHR 0x5C] @ ''s)*(%s)''))
         [''a''] (PStr ''a'') [] Map.empty) = Inr (PList [PNone], PStr [])
   \<and> fail_closed (PList [PNone], PStr [])
   \<and> str_mod (''('' @ [CHR 0x5C] @ ''s)*(%s)'') (PStr ''b'') = Inr (''('' @ [CHR 0x5C] @ ''s)*(b)'')
   \<and> py_re_match (''('' @ [CHR 0x5C] @ ''s)*(b)'') (PStr ''a'') = Inr None
   \<and> match_terminal py_re_match (''('' @ [CHR 0x5C] @ ''s)*(%s)'') (PStr ''b'') (PStr ''a'') = Inr Fail
   \<and> parse_atom_direct 1 group_grammar py_re_match (''('' @ [CHR 0x5C] @ ''s)*(%s)'')
         [PStr ''b'', PStr ''a''] Map.empty = (Inr (PNone, PNone), Map.empty)
   \<and> parse_sequence (parse_atom_direct 1 group_grammar py_re_match (''('' @ [CHR 0x5C] @ ''s)*(%s)''))
         (''b'' # [''a'']) (PStr ''a'') [] Map.empty = (Inr Fail, Map.empty)
   \<and> parse_sequence (parse_atom_direct 1 group_grammar py_re_match (''('' @ [CHR 0x5C] @ ''s)*(%s)''))
         [''b''] (PStr ''a'') [] Map.empty = (Inr (PNone, PNone), Map.empty)
   \<and> parse_alternatives (parse_atom_direct 1 group_grammar py_re_match (''('' @ [CHR 0x5C] @ ''s)*(%s)''))
         (PStr ''S'') ([''b''] # [[''a'']]) (PStr ''a'') Map.empty
       = parse_alternatives (parse_atom_direct 1 group_grammar py_re_match (''('' @ [CHR 0x5C] @ ''s)*(%s)''))
         (PStr ''S'') [[''a'']] (PStr ''a'') Map.empty
   \<and> parse_alternatives (parse_atom_direct 1 group_grammar py_re_match (''('' @ [CHR 0x5C] @ ''s)*(%s)''))
         (PStr ''S'') [] (PStr ''a'') Map.empty = (Inr Fail, Map.empty)
   \<and> tokenizer_of group_grammar = Inr (''('' @ [CHR 0x5C] @ ''s)*(%s)'')
   \<and> parse 1 py_re_match (PStr ''a'') (PStr ''a'') group_grammar
       = fst (parse_atom 1 group_grammar py_re_match (''('' @ [CHR 0x5C] @ ''s)*(%s)'')
               [PStr ''a'', PStr ''a''] Map.empty)"
proof -
  let ?G = group_grammar and ?tok = "''('' @ [CHR 0x5C] @ ''s)*(%s)''"
  let ?pa = "parse_atom_direct 1 ?G py_re_match ?tok"
  have 1: "parse 1 py_re_match (PStr ''a'') (PStr ''a'') ?G = Inr (PNone, PStr [])" by code_simp
  have 2: "PStr [] \<noteq> PNone" by simp
  have 3: "cache_ok Map.empty" by (rule cache_ok_empty)
  have 4: "fst (parse_atom 1 ?G py_re_match ?tok [PStr ''a'', PStr ''a''] Map.empty)
      = Inr (PNone, PStr [])" by code_simp
  have 5: "PStr ''a'' \<noteq> PNone" by simp
  have 6: "fst (parse_sequence ?pa [''a''] (PStr ''a'') [] Map.empty) = Inr (PList [PNone], PStr [])"
    by code_simp
  have 7: "str_mod ?tok (PStr ''b'') = Inr (''('' @ [CHR 0x5C] @ ''s)*(b)'')" by code_simp
  have 8: "py_re_match (''('' @ [CHR 0x5C] @ ''s)*(b)'') (PStr ''a'') = Inr None" by code_simp
  have "direct_value 1 ?G py_re_match ?tok [PStr ''b'', PStr ''a''] = Inr (PNone, PNone)"
    by code_simp
  then have 9: "?pa [PStr ''b'', PStr ''a''] Map.empty = (Inr (PNone, PNone), Map.empty)"
    by (simp only: parse_atom_direct_eq)
  have 10: "tokenizer_of ?G = Inr ?tok" by (simp add: tokenizer_of_def group_grammar_def)
  from 9 have 11: "parse_sequence ?pa [''b''] (PStr ''a'') [] Map.empty
      = (Inr (PNone, PNone), Map.empty)" by (simp add: Fail_def)
  note fs = failure_signal [where depth = 1 and M = py_re_match and start = "PStr ''a''"
      and t = "PStr ''a''" and G = ?G and r = "(PNone, PStr [])" and rem = "PStr []"
      and c = Map.empty and tok = ?tok and args = "[PStr ''a'', PStr ''a'']"
      and ?r1.0 = "(PNone, PStr [])" and ?t2.0 = "PStr ''a''" and pa = ?pa and sequence = "[''a'']"
      and res = "[]" and ?c2.0 = Map.empty and ?r2.0 = "(PList [PNone], PStr [])"
      and atom = "PStr ''b''" and pattern = "''('' @ [CHR 0x5C] @ ''s)*(b)''" and ?t3.0 = "PStr ''a''"
      and a = "''b''" and ?t4.0 = "PStr ''a''" and ?c4.0 = Map.empty and tree = PNone
      and ?c5.0 = Map.empty and alternative = "[''b'']" and ?t6.0 = "PStr ''a''"
      and ?c6.0 = Map.empty and ?tree6.0 = PNone and ?c7.0 = Map.empty and ?atom6.0 = "PStr ''S''"
      and alternatives = "[[''a'']]"]
  from fs 1 2 3 4 5 6 7 8 9 10 11 show ?thesis by blast
qed

text \<open>
  The claim as stated fails twice. A success can have the tree \<^verbatim>\<open>None\<close>: with the
  whitespace pattern \<^verbatim>\<open>(\s)*\<close>, whose group is group 1 of every tokenizer pattern, the
  terminal \<^verbatim>\<open>a\<close> matches the text \<^verbatim>\<open>a\<close> without entering that group, and \<^verbatim>\<open>parse\<close>
  returns \<^verbatim>\<open>(None, '')\<close>. And a failure does not reach the top-level caller from any
  level: in \<^verbatim>\<open>S => a S | a\<close> on the text \<^verbatim>\<open>a\<close> the inner call of \<^verbatim>\<open>parse_atom\<close> on \<^verbatim>\<open>S\<close> and
  the empty text fails, and with it the first alternative, yet \<^verbatim>\<open>parse\<close> succeeds with
  the second.
\<close>

theorem failure_signal_counterexample:
  "parse 1 py_re_match (PStr ''a'') (PStr ''a'') group_grammar = Inr (PNone, PStr [])
   \<and> fst (parse_atom 2 sample_grammar py_re_match (default_whitespace @ ''(%s)'')
         [PStr ''S'', PStr []] Map.empty) = Inr Fail
   \<and> fst (parse_sequence (parse_atom 2 sample_grammar py_re_match (default_whitespace @ ''(%s)''))
         [''a'', ''S''] (PStr ''a'') [] Map.empty) = Inr Fail
   \<and> parse 3 py_re_match (PStr ''S'') (PStr ''a'') sample_grammar
       = Inr (PList [PStr ''S'', PStr ''a''], PStr [])"
  by code_simp

end
